theory Spec2Isabelle
  imports Main "HOL-Library.Word" "HOL-Library.Multiset" "HOL-Library.Log_Nat"
begin

section \<open>The hash table of cvocgen.c\<close>

text \<open>
  A C string is a \<open>string\<close>: the characters before the terminating NUL.
  An \<open>Ht_item\<close> is a key with its count; the \<open>next\<close> pointer of the C struct is the tail of
  the chain, so a bucket is a list of items and the bucket array is a list of chains.
  Counts are C \<open>int\<close>s; signed overflow is undefined in C, so they are modelled as \<open>int\<close>.
  The unsigned fields \<open>size\<close> and \<open>count\<close> are \<open>nat\<close>s, with the wrap-around at \<open>2 ^ 32\<close>
  written out where the code computes with them. The fields \<open>items\<close>, \<open>size\<close> and \<open>count\<close> of
  the struct carry the prefix \<open>ht_\<close>, since \<open>size\<close> and \<open>count\<close> are constants of HOL.
  Failing allocations are not modelled.
\<close>

type_synonym Ht_item = "string \<times> int"

record HashTable =
  ht_items :: "Ht_item list list"
  ht_size :: nat
  ht_count :: nat
  load_threshold :: rat

definition HT_DEFAULT_SIZE :: nat where
  "HT_DEFAULT_SIZE = 10000"

subsection \<open>Single-precision arithmetic of the load factor\<close>

text \<open>
  \<open>load_threshold\<close> and the load factor are C \<open>float\<close>s. A float is modelled by the rational
  it denotes; \<open>float_round\<close> is rounding to the nearest value with a 24-bit significand, ties
  to even (all values that occur are positive and in the normal range).
\<close>

definition float_exponent :: "rat \<Rightarrow> int" where
  "float_exponent x =
     (let (p, q) = quotient_of x; e = bitlen p - bitlen q
      in if 2 powi e \<le> x then e else e - 1)"

definition round_half_even :: "rat \<Rightarrow> int" where
  "round_half_even x =
     (let f = \<lfloor>x\<rfloor>; d = x - of_int f
      in if d < 1 / 2 then f else if 1 / 2 < d then f + 1 else if even f then f else f + 1)"

definition float_round :: "rat \<Rightarrow> rat" where
  "float_round x =
     (if x \<le> 0 then 0
      else let u = 2 powi (float_exponent x - 23) in of_int (round_half_even (x / u)) * u)"

definition HT_DEFAULT_LOAD_THRESHOLD :: rat where
  "HT_DEFAULT_LOAD_THRESHOLD = float_round (7 / 10)"

subsection \<open>hash, ht_create, hash_search\<close>

text \<open>
  \<open>value = value * 37 + key[i]\<close> in \<open>unsigned long\<close> (64 bits), \<open>key[i]\<close> a \<open>char\<close>
  (signed, as on x86-64), then \<open>value % size\<close>.
\<close>

definition hash :: "string \<Rightarrow> nat \<Rightarrow> nat" where
  "hash key sz =
     unat (foldl (\<lambda>v c. v * 37 + scast (of_char c :: 8 word)) (0 :: 64 word) key) mod sz"

definition ht_create_with_threshold :: "nat \<Rightarrow> rat \<Rightarrow> HashTable" where
  "ht_create_with_threshold sz thr =
     (let sz' = (if sz = 0 then HT_DEFAULT_SIZE else sz)
      in \<lparr>ht_items = replicate sz' [], ht_size = sz', ht_count = 0, load_threshold = thr\<rparr>)"

definition ht_create :: "nat \<Rightarrow> HashTable" where
  "ht_create sz = ht_create_with_threshold sz HT_DEFAULT_LOAD_THRESHOLD"

text \<open>The walk along one chain: the count of the first item whose key compares equal.\<close>

fun chain_search :: "Ht_item list \<Rightarrow> string \<Rightarrow> int option" where
  "chain_search [] key = None"
| "chain_search (item # rest) key = (if fst item = key then Some (snd item) else chain_search rest key)"

definition hash_search :: "HashTable \<Rightarrow> string \<Rightarrow> int option" where
  "hash_search ht key = chain_search (ht_items ht ! hash key (ht_size ht)) key"

text \<open>
  \<open>item->count = v\<close> through the pointer that \<open>hash_search\<close> returned: the first item of
  the chain with that key gets the new count.
\<close>

fun chain_set :: "Ht_item list \<Rightarrow> string \<Rightarrow> int \<Rightarrow> Ht_item list" where
  "chain_set [] key v = []"
| "chain_set (item # rest) key v =
     (if fst item = key then (key, v) # rest else item # chain_set rest key v)"

definition ht_set_count :: "HashTable \<Rightarrow> string \<Rightarrow> int \<Rightarrow> HashTable" where
  "ht_set_count ht key v =
     (let slot = hash key (ht_size ht)
      in ht\<lparr>ht_items := (ht_items ht)[slot := chain_set (ht_items ht ! slot) key v]\<rparr>)"

text \<open>A new item linked in at the head of its chain.\<close>

definition ht_push :: "HashTable \<Rightarrow> string \<Rightarrow> int \<Rightarrow> HashTable" where
  "ht_push ht key v =
     (let slot = hash key (ht_size ht)
      in ht\<lparr>ht_items := (ht_items ht)[slot := (key, v) # ht_items ht ! slot]\<rparr>)"

text \<open>
  The order in which every \<open>for (i < size) while (item)\<close> double loop of the program visits
  the items: bucket by bucket, each chain from its head.
\<close>

definition ht_entries :: "HashTable \<Rightarrow> Ht_item list" where
  "ht_entries ht = concat (map (\<lambda>i. ht_items ht ! i) [0..<ht_size ht])"

definition count_unique_tokens :: "HashTable \<Rightarrow> nat" where
  "count_unique_tokens ht = length (ht_entries ht)"

subsection \<open>ht_resize, hash_insert_or_increment\<close>

definition rehash_item :: "nat \<Rightarrow> Ht_item list list \<Rightarrow> Ht_item \<Rightarrow> Ht_item list list" where
  "rehash_item new_size new_items item =
     (let new_slot = hash (fst item) new_size
      in new_items[new_slot := item # new_items ! new_slot])"

text \<open>\<open>ht_resize\<close> returns 0 and leaves the table alone when \<open>new_size\<close> is 0: \<open>None\<close>.\<close>

definition ht_resize :: "HashTable \<Rightarrow> nat \<Rightarrow> HashTable option" where
  "ht_resize ht new_size =
     (if new_size = 0 then None
      else Some (ht\<lparr>ht_items := foldl (rehash_item new_size) (replicate new_size []) (ht_entries ht),
                    ht_size := new_size\<rparr>))"

definition load_factor :: "HashTable \<Rightarrow> rat" where
  "load_factor ht =
     float_round (float_round (of_nat ((ht_count ht + 1) mod 2 ^ 32)) / float_round (of_nat (ht_size ht)))"

definition hash_insert_or_increment :: "HashTable \<Rightarrow> string \<Rightarrow> HashTable" where
  "hash_insert_or_increment ht0 key =
     (let ht = (if load_threshold ht0 \<le> load_factor ht0
                then (case ht_resize ht0 ((ht_size ht0 * 2) mod 2 ^ 32) of None \<Rightarrow> ht0 | Some r \<Rightarrow> r)
                else ht0)
      in case hash_search ht key of
           Some c \<Rightarrow> ht_set_count ht key (c + 1)
         | None \<Rightarrow> (ht_push ht key 1)\<lparr>ht_count := (ht_count ht + 1) mod 2 ^ 32\<rparr>)"

section \<open>Pair statistics and the merge engine\<close>

text \<open>\<open>snprintf(buf, 256, ...)\<close> keeps at most 255 bytes of what it formats.\<close>

definition pair_key :: "string \<Rightarrow> string \<Rightarrow> string" where
  "pair_key a b = take 255 (a @ '' '' @ b)"

definition merged_token :: "string \<Rightarrow> string \<Rightarrow> string" where
  "merged_token first second = take 255 (first @ second)"

fun pair_keys :: "string list \<Rightarrow> string list" where
  "pair_keys (a # b # rest) = pair_key a b # pair_keys (b # rest)"
| "pair_keys ts = []"

text \<open>\<open>get_pair_stats\<close> returns NULL for fewer than two tokens.\<close>

definition get_pair_stats :: "string list \<Rightarrow> HashTable option" where
  "get_pair_stats tokens =
     (if length tokens < 2 then None
      else Some (foldl hash_insert_or_increment (ht_create (HT_DEFAULT_SIZE div 10)) (pair_keys tokens)))"

text \<open>
  \<open>get_best_pair\<close>: the first item, in iteration order, with the strictly greatest count;
  the result is the key (NULL when nothing beats -1) and the value stored in \<open>*count\<close>.
\<close>

definition best_step :: "string option \<times> int \<Rightarrow> Ht_item \<Rightarrow> string option \<times> int" where
  "best_step acc item = (if snd acc < snd item then (Some (fst item), snd item) else acc)"

definition get_best_pair :: "HashTable \<Rightarrow> string option \<times> int" where
  "get_best_pair stats = foldl best_step (None, - 1) (ht_entries stats)"

text \<open>The split of a pair at its first space, as \<open>strchr\<close> and the overwritten byte do it.\<close>

definition pair_first :: "string \<Rightarrow> string" where
  "pair_first pair = takeWhile (\<lambda>c. c \<noteq> CHR '' '') pair"

definition pair_second :: "string \<Rightarrow> string" where
  "pair_second pair = tl (dropWhile (\<lambda>c. c \<noteq> CHR '' '') pair)"

fun merge_loop :: "string \<Rightarrow> string \<Rightarrow> string list \<Rightarrow> string list" where
  "merge_loop first second (a # b # rest) =
     (if a = first \<and> b = second then merged_token first second # merge_loop first second rest
      else a # merge_loop first second (b # rest))"
| "merge_loop first second ts = ts"

definition merge_pair :: "string list \<Rightarrow> string \<Rightarrow> string list" where
  "merge_pair tokens pair =
     (if CHR '' '' \<in> set pair then merge_loop (pair_first pair) (pair_second pair) tokens
      else tokens)"

section \<open>Correctness of the hash table\<close>

text \<open>
  The invariant that \<open>ht_create\<close> establishes and every operation keeps: the bucket array
  has \<open>size\<close> chains, every item sits in the chain its key hashes to, and no key is stored
  twice.
\<close>

fun chains_ok :: "nat \<Rightarrow> nat \<Rightarrow> Ht_item list list \<Rightarrow> bool" where
  "chains_ok sz i [] = True"
| "chains_ok sz i (bucket # rest) =
     (list_all (\<lambda>item. hash (fst item) sz = i) bucket \<and> chains_ok sz (Suc i) rest)"

definition ht_inv :: "HashTable \<Rightarrow> bool" where
  "ht_inv ht \<longleftrightarrow>
     0 < ht_size ht \<and> length (ht_items ht) = ht_size ht
     \<and> chains_ok (ht_size ht) 0 (ht_items ht)
     \<and> distinct (map fst (concat (ht_items ht)))"

definition slots_ok :: "nat \<Rightarrow> Ht_item list list \<Rightarrow> bool" where
  "slots_ok n xss \<longleftrightarrow> (\<forall>i < length xss. \<forall>item \<in> set (xss ! i). hash (fst item) n = i)"

text \<open>The table after the resize check at the head of \<open>hash_insert_or_increment\<close>.\<close>

definition maybe_resized :: "HashTable \<Rightarrow> HashTable" where
  "maybe_resized ht0 =
     (if load_threshold ht0 \<le> load_factor ht0
      then (case ht_resize ht0 ((ht_size ht0 * 2) mod 2 ^ 32) of None \<Rightarrow> ht0 | Some r \<Rightarrow> r)
      else ht0)"

lemma chains_ok_iff:
  "chains_ok sz k xss \<longleftrightarrow> (\<forall>i < length xss. \<forall>item \<in> set (xss ! i). hash (fst item) sz = k + i)"
proof (induction xss arbitrary: k)
  case Nil
  then show ?case by simp
next
  case (Cons xs xss)
  show ?case
    by (simp add: Cons.IH All_less_Suc2 list_all_iff)
qed

lemma ht_inv_iff:
  "ht_inv ht \<longleftrightarrow>
     0 < ht_size ht \<and> length (ht_items ht) = ht_size ht
     \<and> (\<forall>i < length (ht_items ht). \<forall>item \<in> set (ht_items ht ! i). hash (fst item) (ht_size ht) = i)
     \<and> distinct (map fst (concat (ht_items ht)))"
  by (simp add: ht_inv_def chains_ok_iff)

lemma hash_less: "0 < n \<Longrightarrow> hash key n < n"
  by (simp add: hash_def)

lemma chain_search_map_of: "chain_search chain key = map_of chain key"
  by (induction chain) auto

lemma ht_entries_concat: "length (ht_items ht) = ht_size ht \<Longrightarrow> ht_entries ht = concat (ht_items ht)"
  unfolding ht_entries_def by (metis map_nth)

lemma map_of_concat_bucket:
  assumes "j < length xss"
    and "\<forall>i < length xss. i \<noteq> j \<longrightarrow> key \<notin> fst ` set (xss ! i)"
  shows "map_of (concat xss) key = map_of (xss ! j) key"
  using assms
proof (induction xss arbitrary: j)
  case Nil
  then show ?case by simp
next
  case (Cons xs xss)
  show ?case
  proof (cases j)
    case 0
    have "key \<notin> fst ` set (concat xss)"
    proof
      assume "key \<in> fst ` set (concat xss)"
      then obtain ys where "ys \<in> set xss" "key \<in> fst ` set ys" by auto
      then obtain i where "i < length xss" "xss ! i = ys" by (auto simp: in_set_conv_nth)
      with Cons.prems(2) [rule_format, of "Suc i"] 0 \<open>key \<in> fst ` set ys\<close> show False by simp
    qed
    then have "map_of (concat xss) key = None" by (simp add: map_of_eq_None_iff)
    with 0 show ?thesis by (simp add: map_add_def split: option.splits)
  next
    case (Suc j')
    from Cons.prems(2) [rule_format, of 0] Suc have "key \<notin> fst ` set xs" by simp
    then have n: "map_of xs key = None" by (simp add: map_of_eq_None_iff)
    have "map_of (concat xss) key = map_of (xss ! j') key"
    proof (rule Cons.IH)
      show "j' < length xss" using Cons.prems(1) Suc by simp
      show "\<forall>i<length xss. i \<noteq> j' \<longrightarrow> key \<notin> fst ` set (xss ! i)"
        using Cons.prems(2) Suc by (metis Suc_less_eq length_Cons nat.inject nth_Cons_Suc)
    qed
    with n Suc show ?thesis by (simp add: map_add_def)
  qed
qed

lemma hash_search_map_of:
  assumes "ht_inv ht"
  shows "hash_search ht key = map_of (ht_entries ht) key"
proof -
  let ?j = "hash key (ht_size ht)"
  from assms have len: "length (ht_items ht) = ht_size ht" and pos: "0 < ht_size ht"
    and slot: "\<forall>i < length (ht_items ht). \<forall>item \<in> set (ht_items ht ! i). hash (fst item) (ht_size ht) = i"
    by (auto simp: ht_inv_iff)
  have j: "?j < length (ht_items ht)" using len pos by (simp add: hash_less)
  have "\<forall>i < length (ht_items ht). i \<noteq> ?j \<longrightarrow> key \<notin> fst ` set (ht_items ht ! i)"
    using slot by auto
  from map_of_concat_bucket [OF j this] show ?thesis
    by (simp add: hash_search_def chain_search_map_of ht_entries_concat [OF len])
qed


subsection \<open>Rehashing\<close>

lemma length_rehash: "length (foldl (rehash_item n) acc es) = length acc"
  by (induction es arbitrary: acc) (auto simp: rehash_item_def Let_def)

lemma mset_concat_push:
  "i < length xss \<Longrightarrow> mset (concat (xss[i := a # xss ! i])) = add_mset a (mset (concat xss))"
proof (induction xss arbitrary: i)
  case Nil
  then show ?case by simp
next
  case (Cons xs xss)
  then show ?case by (cases i) auto
qed

lemma mset_rehash:
  "0 < n \<Longrightarrow> length acc = n \<Longrightarrow>
   mset (concat (foldl (rehash_item n) acc es)) = mset (concat acc) + mset es"
proof (induction es arbitrary: acc)
  case Nil
  then show ?case by simp
next
  case (Cons e es)
  have "length (rehash_item n acc e) = n" using Cons.prems by (simp add: rehash_item_def Let_def)
  from Cons.IH [OF Cons.prems(1) this] Cons.prems show ?case
    by (simp add: rehash_item_def Let_def mset_concat_push hash_less)
qed


lemma slots_ok_push:
  "slots_ok n xss \<Longrightarrow> slots_ok n (xss[hash (fst item) n := item # xss ! hash (fst item) n])"
proof -
  assume ok: "slots_ok n xss"
  let ?s = "hash (fst item) n"
  show ?thesis
    unfolding slots_ok_def
  proof (intro allI impI ballI)
    fix i x
    assume i: "i < length (xss[?s := item # xss ! ?s])"
      and x: "x \<in> set (xss[?s := item # xss ! ?s] ! i)"
    show "hash (fst x) n = i"
    proof (cases "i = ?s")
      case True
      with i x have "x = item \<or> x \<in> set (xss ! i)" by auto
      with ok i True show ?thesis by (auto simp: slots_ok_def)
    next
      case False
      with i x have "x \<in> set (xss ! i)" by simp
      with ok i show ?thesis by (auto simp: slots_ok_def)
    qed
  qed
qed

lemma slots_ok_rehash: "slots_ok n acc \<Longrightarrow> slots_ok n (foldl (rehash_item n) acc es)"
proof (induction es arbitrary: acc)
  case Nil
  then show ?case by simp
next
  case (Cons e es)
  from slots_ok_push [OF Cons.prems, of e] have "slots_ok n (rehash_item n acc e)"
    by (simp add: rehash_item_def Let_def)
  from Cons.IH [OF this] show ?case by simp
qed

lemma ht_inv_alt:
  "ht_inv ht \<longleftrightarrow> 0 < ht_size ht \<and> length (ht_items ht) = ht_size ht
     \<and> slots_ok (ht_size ht) (ht_items ht) \<and> distinct (map fst (concat (ht_items ht)))"
  by (simp add: ht_inv_iff slots_ok_def)

lemma ht_resize_entries:
  assumes "length (ht_items ht) = ht_size ht" and "ht_resize ht n = Some ht'"
  shows "mset (ht_entries ht') = mset (ht_entries ht)"
    and "ht_size ht' = n" and "length (ht_items ht') = n" and "0 < n"
    and "slots_ok n (ht_items ht')"
proof -
  from assms(2) have n: "0 < n"
    and ht': "ht' = ht\<lparr>ht_items := foldl (rehash_item n) (replicate n []) (ht_entries ht), ht_size := n\<rparr>"
    by (auto simp: ht_resize_def split: if_splits)
  show "0 < n" by fact
  show sz: "ht_size ht' = n" by (simp add: ht')
  show len: "length (ht_items ht') = n" by (simp add: ht' length_rehash)
  have "mset (concat (ht_items ht')) = mset (ht_entries ht)"
    using mset_rehash [OF n, of "replicate n []" "ht_entries ht"] by (simp add: ht')
  then show "mset (ht_entries ht') = mset (ht_entries ht)"
    using ht_entries_concat [of ht'] sz len by simp
  have "slots_ok n (replicate n [])" by (simp add: slots_ok_def)
  from slots_ok_rehash [OF this] show "slots_ok n (ht_items ht')" by (simp add: ht')
qed

lemma distinct_keys_mset:
  "mset es' = mset es \<Longrightarrow> distinct (map fst es) \<Longrightarrow> distinct (map fst es')"
proof -
  assume a: "mset es' = mset es" and d: "distinct (map fst es)"
  from a have "mset (map fst es') = mset (map fst es)" by (metis mset_map)
  with d show ?thesis by (metis mset_eq_imp_distinct_iff)
qed

lemma map_of_mset:
  assumes "mset es' = mset es" and "distinct (map fst es)"
  shows "map_of es' = map_of es"
proof -
  from assms have "distinct (map fst es')" by (rule distinct_keys_mset)
  moreover from assms(1) have "set es' = set es" by (metis set_mset_mset)
  ultimately show ?thesis using assms(2) by (simp add: map_of_inject_set)
qed

lemma ht_resize_inv:
  assumes "ht_inv ht" and "ht_resize ht n = Some ht'"
  shows "ht_inv ht'"
proof -
  from assms(1) have len: "length (ht_items ht) = ht_size ht"
    and d: "distinct (map fst (ht_entries ht))"
    by (auto simp: ht_inv_iff ht_entries_concat)
  note r = ht_resize_entries [OF len assms(2)]
  from r(1) d have "distinct (map fst (ht_entries ht'))" by (rule distinct_keys_mset)
  then have "distinct (map fst (concat (ht_items ht')))"
    using ht_entries_concat [of ht'] r(2,3) by simp
  with r show ?thesis by (simp add: ht_inv_alt)
qed

lemma ht_resize_search:
  assumes "ht_inv ht" and "ht_resize ht n = Some ht'"
  shows "hash_search ht' key = hash_search ht key"
proof -
  from assms(1) have len: "length (ht_items ht) = ht_size ht"
    and d: "distinct (map fst (ht_entries ht))"
    by (auto simp: ht_inv_iff ht_entries_concat)
  from ht_resize_entries(1) [OF len assms(2)] d have "map_of (ht_entries ht') = map_of (ht_entries ht)"
    by (rule map_of_mset)
  then show ?thesis
    by (simp add: hash_search_map_of [OF assms(1)] hash_search_map_of [OF ht_resize_inv [OF assms]])
qed


subsection \<open>Updating and inserting\<close>

lemma chain_search_chain_set:
  "chain_search (chain_set ch key v) k =
     (if k = key \<and> chain_search ch key \<noteq> None then Some v else chain_search ch k)"
  by (induction ch) auto

lemma keys_chain_set: "map fst (chain_set ch key v) = map fst ch"
  by (induction ch) auto

lemma length_chain_set: "length (chain_set ch key v) = length ch"
  by (induction ch) auto

lemma concat_keys_update:
  "i < length xss \<Longrightarrow> map fst ys = map fst (xss ! i) \<Longrightarrow>
   map fst (concat (xss[i := ys])) = map fst (concat xss)"
proof (induction xss arbitrary: i)
  case Nil
  then show ?case by simp
next
  case (Cons xs xss)
  then show ?case by (cases i) auto
qed

lemma hash_search_set_count:
  assumes "0 < ht_size ht" and "length (ht_items ht) = ht_size ht"
  shows "hash_search (ht_set_count ht key v) k =
           (if k = key \<and> hash_search ht key \<noteq> None then Some v else hash_search ht k)"
proof -
  let ?s = "hash key (ht_size ht)"
  have s: "?s < length (ht_items ht)" using assms by (simp add: hash_less)
  have sz: "ht_size (ht_set_count ht key v) = ht_size ht"
    by (simp add: ht_set_count_def Let_def)
  have it: "ht_items (ht_set_count ht key v) = (ht_items ht)[?s := chain_set (ht_items ht ! ?s) key v]"
    by (simp add: ht_set_count_def Let_def)
  show ?thesis
  proof (cases "hash k (ht_size ht) = ?s")
    case True
    then show ?thesis
      unfolding hash_search_def sz it using s by (auto simp: chain_search_chain_set)
  next
    case False
    then have "k \<noteq> key" by auto
    with False show ?thesis
      unfolding hash_search_def sz it using s by simp
  qed
qed

lemma hash_search_push:
  assumes "0 < ht_size ht" and "length (ht_items ht) = ht_size ht"
  shows "hash_search (ht_push ht key v) k = (if k = key then Some v else hash_search ht k)"
proof -
  let ?s = "hash key (ht_size ht)"
  have s: "?s < length (ht_items ht)" using assms by (simp add: hash_less)
  have sz: "ht_size (ht_push ht key v) = ht_size ht"
    by (simp add: ht_push_def Let_def)
  have it: "ht_items (ht_push ht key v) = (ht_items ht)[?s := (key, v) # ht_items ht ! ?s]"
    by (simp add: ht_push_def Let_def)
  show ?thesis
  proof (cases "hash k (ht_size ht) = ?s")
    case True
    then show ?thesis
      unfolding hash_search_def sz it using s by auto
  next
    case False
    then have "k \<noteq> key" by auto
    with False show ?thesis
      unfolding hash_search_def sz it using s by simp
  qed
qed

lemma ht_set_count_inv:
  assumes "ht_inv ht"
  shows "ht_inv (ht_set_count ht key v)"
proof -
  let ?s = "hash key (ht_size ht)"
  let ?ch = "chain_set (ht_items ht ! ?s) key v"
  from assms have pos: "0 < ht_size ht" and len: "length (ht_items ht) = ht_size ht"
    and ok: "slots_ok (ht_size ht) (ht_items ht)"
    and d: "distinct (map fst (concat (ht_items ht)))"
    by (auto simp: ht_inv_alt)
  have s: "?s < length (ht_items ht)" using pos len by (simp add: hash_less)
  have keys: "map fst ?ch = map fst (ht_items ht ! ?s)" by (rule keys_chain_set)
  have "slots_ok (ht_size ht) ((ht_items ht)[?s := ?ch])"
    unfolding slots_ok_def
  proof (intro allI impI ballI)
    fix i x
    assume i: "i < length ((ht_items ht)[?s := ?ch])" and x: "x \<in> set ((ht_items ht)[?s := ?ch] ! i)"
    show "hash (fst x) (ht_size ht) = i"
    proof (cases "i = ?s")
      case True
      with i x have "fst x \<in> set (map fst ?ch)" by simp
      then have "fst x \<in> fst ` set (ht_items ht ! ?s)" unfolding keys by simp
      then obtain y where y: "y \<in> set (ht_items ht ! ?s)" "fst y = fst x" by auto
      from ok s y(1) have "hash (fst y) (ht_size ht) = ?s" unfolding slots_ok_def by blast
      with y True show ?thesis by simp
    next
      case False
      with i x have "x \<in> set (ht_items ht ! i)" by simp
      with ok i show ?thesis by (auto simp: slots_ok_def)
    qed
  qed
  moreover have "distinct (map fst (concat ((ht_items ht)[?s := ?ch])))"
    using concat_keys_update [OF s keys] d by simp
  ultimately show ?thesis using pos len by (simp add: ht_inv_alt ht_set_count_def Let_def)
qed

lemma ht_set_count_length:
  assumes "0 < ht_size ht" and "length (ht_items ht) = ht_size ht"
  shows "map fst (ht_entries (ht_set_count ht key v)) = map fst (ht_entries ht)"
proof -
  let ?s = "hash key (ht_size ht)"
  have s: "?s < length (ht_items ht)" using assms by (simp add: hash_less)
  have "ht_entries (ht_set_count ht key v)
          = concat ((ht_items ht)[?s := chain_set (ht_items ht ! ?s) key v])"
    using assms by (simp add: ht_entries_concat ht_set_count_def Let_def)
  with concat_keys_update [OF s keys_chain_set [symmetric, THEN sym]] assms show ?thesis
    by (simp add: ht_entries_concat)
qed

lemma ht_push_entries:
  assumes "0 < ht_size ht" and "length (ht_items ht) = ht_size ht"
  shows "mset (ht_entries (ht_push ht key v)) = add_mset (key, v) (mset (ht_entries ht))"
proof -
  let ?s = "hash key (ht_size ht)"
  have s: "?s < length (ht_items ht)" using assms by (simp add: hash_less)
  have "ht_entries (ht_push ht key v) = concat ((ht_items ht)[?s := (key, v) # ht_items ht ! ?s])"
    using assms by (simp add: ht_entries_concat ht_push_def Let_def)
  with mset_concat_push [OF s] assms show ?thesis by (simp add: ht_entries_concat)
qed

lemma hash_search_None_keys:
  assumes "ht_inv ht"
  shows "hash_search ht key = None \<longleftrightarrow> key \<notin> fst ` set (ht_entries ht)"
  by (simp add: hash_search_map_of [OF assms] map_of_eq_None_iff)

lemma ht_push_inv:
  assumes "ht_inv ht" and "hash_search ht key = None"
  shows "ht_inv (ht_push ht key v)"
proof -
  let ?s = "hash key (ht_size ht)"
  from assms have pos: "0 < ht_size ht" and len: "length (ht_items ht) = ht_size ht"
    and ok: "slots_ok (ht_size ht) (ht_items ht)"
    and d: "distinct (map fst (ht_entries ht))"
    by (auto simp: ht_inv_alt ht_entries_concat)
  from assms have new: "key \<notin> fst ` set (ht_entries ht)" by (simp add: hash_search_None_keys)
  have sz: "ht_size (ht_push ht key v) = ht_size ht" and len': "length (ht_items (ht_push ht key v)) = ht_size ht"
    using len by (simp_all add: ht_push_def Let_def)
  have "mset (ht_entries (ht_push ht key v)) = mset ((key, v) # ht_entries ht)"
    using ht_push_entries [OF pos len] by simp
  moreover have "distinct (map fst ((key, v) # ht_entries ht))" using new d by simp
  ultimately have "distinct (map fst (ht_entries (ht_push ht key v)))" by (rule distinct_keys_mset)
  then have "distinct (map fst (concat (ht_items (ht_push ht key v))))"
    using ht_entries_concat [of "ht_push ht key v"] sz len' by simp
  moreover have "slots_ok (ht_size ht) (ht_items (ht_push ht key v))"
    using slots_ok_push [OF ok, of "(key, v)"] by (simp add: ht_push_def Let_def)
  ultimately show ?thesis using pos sz len' by (simp add: ht_inv_alt)
qed


lemma ht_create_inv: "ht_inv (ht_create n)"
  by (simp add: ht_inv_iff ht_create_def ht_create_with_threshold_def Let_def HT_DEFAULT_SIZE_def)

lemma ht_create_entries: "ht_entries (ht_create n) = []"
  by (simp add: ht_entries_def ht_create_def ht_create_with_threshold_def Let_def)

lemma hash_search_create: "hash_search (ht_create n) key = None"
  by (simp add: hash_search_map_of [OF ht_create_inv] ht_create_entries)


lemma maybe_resized_inv: "ht_inv ht \<Longrightarrow> ht_inv (maybe_resized ht)"
  by (auto simp: maybe_resized_def ht_resize_inv split: option.splits)

lemma maybe_resized_search: "ht_inv ht \<Longrightarrow> hash_search (maybe_resized ht) key = hash_search ht key"
  by (auto simp: maybe_resized_def ht_resize_search split: option.splits)

lemma maybe_resized_entries: "ht_inv ht \<Longrightarrow> mset (ht_entries (maybe_resized ht)) = mset (ht_entries ht)"
  by (auto simp: maybe_resized_def ht_inv_iff ht_resize_entries(1) split: option.splits)

lemma hash_insert_or_increment_alt:
  "hash_insert_or_increment ht0 key =
     (let ht = maybe_resized ht0
      in case hash_search ht key of
           Some c \<Rightarrow> ht_set_count ht key (c + 1)
         | None \<Rightarrow> (ht_push ht key 1)\<lparr>ht_count := (ht_count ht + 1) mod 2 ^ 32\<rparr>)"
  by (simp add: hash_insert_or_increment_def maybe_resized_def)

lemma ht_inv_count_update: "ht_inv (ht\<lparr>ht_count := c\<rparr>) = ht_inv ht"
  by (simp add: ht_inv_iff)

lemma hash_search_count_update: "hash_search (ht\<lparr>ht_count := c\<rparr>) key = hash_search ht key"
  by (simp add: hash_search_def)

lemma ht_entries_count_update: "ht_entries (ht\<lparr>ht_count := c\<rparr>) = ht_entries ht"
  by (simp add: ht_entries_def)

lemma hash_insert_or_increment_inv:
  assumes "ht_inv ht"
  shows "ht_inv (hash_insert_or_increment ht key)"
proof -
  from assms have "ht_inv (maybe_resized ht)" by (rule maybe_resized_inv)
  then show ?thesis
    by (auto simp: hash_insert_or_increment_alt Let_def ht_set_count_inv ht_push_inv ht_inv_count_update
        split: option.splits)
qed

lemma hash_insert_or_increment_search:
  assumes "ht_inv ht"
  shows "hash_search (hash_insert_or_increment ht key) k =
           (if k = key then Some (case hash_search ht key of None \<Rightarrow> 1 | Some c \<Rightarrow> c + 1)
            else hash_search ht k)"
proof -
  let ?r = "maybe_resized ht"
  from assms have inv: "ht_inv ?r" by (rule maybe_resized_inv)
  then have pos: "0 < ht_size ?r" and len: "length (ht_items ?r) = ht_size ?r"
    by (auto simp: ht_inv_iff)
  have same: "\<And>k. hash_search ?r k = hash_search ht k" using assms by (rule maybe_resized_search)
  show ?thesis
  proof (cases "hash_search ?r key")
    case None
    then show ?thesis
      using same by (simp add: hash_insert_or_increment_alt Let_def hash_search_count_update
          hash_search_push [OF pos len])
  next
    case (Some c)
    then show ?thesis
      using same by (simp add: hash_insert_or_increment_alt Let_def hash_search_set_count [OF pos len])
  qed
qed

lemma foldl_insert_inv:
  "ht_inv ht \<Longrightarrow> ht_inv (foldl hash_insert_or_increment ht ks)"
  by (induction ks arbitrary: ht) (auto simp: hash_insert_or_increment_inv)

lemma foldl_insert_search:
  "ht_inv ht \<Longrightarrow>
   hash_search (foldl hash_insert_or_increment ht ks) k =
     (if k \<in> set ks
      then Some ((case hash_search ht k of None \<Rightarrow> 0 | Some c \<Rightarrow> c) + int (count_list ks k))
      else hash_search ht k)"
proof (induction ks arbitrary: ht)
  case Nil
  then show ?case by simp
next
  case (Cons a ks)
  from Cons.prems have inv: "ht_inv (hash_insert_or_increment ht a)"
    by (rule hash_insert_or_increment_inv)
  show ?case
    using Cons.IH [OF inv] hash_insert_or_increment_search [OF Cons.prems]
    by (auto split: option.splits)
qed

text \<open>
  C8. \<open>ht_resize\<close> to a non-zero capacity succeeds and keeps every key/count pair: the new
  table holds the same items (as a multiset, so nothing is lost and nothing is duplicated),
  its keys are pairwise distinct, and every key is found with the count it had.
\<close>

theorem ht_resize_preserves:
  assumes "ht_inv ht" and "0 < new_size"
  shows "\<exists>ht'. ht_resize ht new_size = Some ht' \<and> ht_size ht' = new_size
           \<and> mset (ht_entries ht') = mset (ht_entries ht)
           \<and> distinct (map fst (ht_entries ht'))
           \<and> (\<forall>key. hash_search ht' key = hash_search ht key)"
proof -
  from assms(2) obtain ht' where r: "ht_resize ht new_size = Some ht'"
    by (simp add: ht_resize_def)
  from assms(1) have len: "length (ht_items ht) = ht_size ht"
    and d: "distinct (map fst (ht_entries ht))"
    by (auto simp: ht_inv_iff ht_entries_concat)
  note e = ht_resize_entries [OF len r]
  from e(1) d have "distinct (map fst (ht_entries ht'))" by (rule distinct_keys_mset)
  with r e(1,2) ht_resize_search [OF assms(1) r] show ?thesis by simp
qed

theorem ht_resize_preserves_witness:
  "ht_inv \<lparr>ht_items = [[], [], [(''[N]'', 2)], [(''[C]'', 3)]], ht_size = 4, ht_count = 2,
            load_threshold = HT_DEFAULT_LOAD_THRESHOLD\<rparr>
   \<and> (0 :: nat) < 8
   \<and> (\<exists>ht'. ht_resize \<lparr>ht_items = [[], [], [(''[N]'', 2)], [(''[C]'', 3)]], ht_size = 4, ht_count = 2,
                          load_threshold = HT_DEFAULT_LOAD_THRESHOLD\<rparr> 8 = Some ht'
          \<and> ht_size ht' = 8
          \<and> mset (ht_entries ht') = {#(''[N]'', 2), (''[C]'', 3)#}
          \<and> distinct (map fst (ht_entries ht'))
          \<and> hash_search ht' ''[C]'' = Some 3 \<and> hash_search ht' ''[N]'' = Some 2
          \<and> hash_search ht' ''[O]'' = None)"
proof -
  let ?T = "\<lparr>ht_items = [[], [], [(''[N]'', 2)], [(''[C]'', 3)]], ht_size = 4, ht_count = 2,
            load_threshold = HT_DEFAULT_LOAD_THRESHOLD\<rparr>"
  have h: "hash ''[N]'' 4 = 2" "hash ''[C]'' 4 = 3" "hash ''[O]'' 4 = 3"
    by (simp_all add: hash_def)
  have inv: "ht_inv ?T"
    by (simp add: ht_inv_def h)
  have pos: "(0 :: nat) < 8" by simp
  have e: "ht_entries ?T = [(''[N]'', 2), (''[C]'', 3)]"
    by (simp add: ht_entries_def upt_rec)
  have s: "hash_search ?T ''[C]'' = Some 3" "hash_search ?T ''[N]'' = Some 2"
    "hash_search ?T ''[O]'' = None"
    by (simp_all add: hash_search_def h)
  from ht_resize_preserves [OF inv pos] e s inv pos show ?thesis by auto
qed

section \<open>Properties of the merge engine\<close>

lemma pair_split: "CHR '' '' \<in> set pair \<Longrightarrow> pair = pair_first pair @ '' '' @ pair_second pair"
proof -
  assume "CHR '' '' \<in> set pair"
  then have "dropWhile (\<lambda>c. c \<noteq> CHR '' '') pair \<noteq> []"
    by (simp add: dropWhile_eq_Nil_conv)
  moreover from this have "hd (dropWhile (\<lambda>c. c \<noteq> CHR '' '') pair) = CHR '' ''"
    using hd_dropWhile [of "\<lambda>c. c \<noteq> CHR '' ''" pair] by simp
  ultimately have "dropWhile (\<lambda>c. c \<noteq> CHR '' '') pair = CHR '' '' # pair_second pair"
    unfolding pair_second_def by (metis list.collapse)
  then show ?thesis
    unfolding pair_first_def using takeWhile_dropWhile_id [of "\<lambda>c. c \<noteq> CHR '' ''" pair] by simp
qed

lemma concat_merge_loop:
  "length first + length second < 256 \<Longrightarrow> concat (merge_loop first second ts) = concat ts"
  by (induction first second ts rule: merge_loop.induct) (auto simp: merged_token_def)

text \<open>
  C10. A merge keeps the characters of a molecule: when the two halves of the pair together
  fit the 256-byte buffer, the concatenation of the tokens \<open>merge_pair\<close> returns is the
  concatenation of the tokens it was given.
\<close>

theorem merge_pair_preserves_concat:
  assumes "CHR '' '' \<in> set pair"
    and "length (pair_first pair) + length (pair_second pair) < 256"
  shows "concat (merge_pair tokens pair) = concat tokens"
  using assms by (simp add: merge_pair_def concat_merge_loop)

theorem merge_pair_preserves_concat_witness:
  "CHR '' '' \<in> set ''[C] [C]''
   \<and> length (pair_first ''[C] [C]'') + length (pair_second ''[C] [C]'') < 256
   \<and> merge_pair [''[C]'', ''[C]'', ''[C]'', ''[N]''] ''[C] [C]'' = [''[C][C]'', ''[C]'', ''[N]'']
   \<and> concat (merge_pair [''[C]'', ''[C]'', ''[C]'', ''[N]''] ''[C] [C]'') = ''[C][C][C][N]''"
proof -
  have a: "CHR '' '' \<in> set ''[C] [C]''" by simp
  have b: "length (pair_first ''[C] [C]'') + length (pair_second ''[C] [C]'') < 256"
    by (simp add: pair_first_def pair_second_def)
  have c: "merge_pair [''[C]'', ''[C]'', ''[C]'', ''[N]''] ''[C] [C]'' = [''[C][C]'', ''[C]'', ''[N]'']"
    by (simp add: merge_pair_def pair_first_def pair_second_def merged_token_def)
  from merge_pair_preserves_concat [OF a b, of "[''[C]'', ''[C]'', ''[C]'', ''[N]'']"] a b c
  show ?thesis by simp
qed

lemma pair_keys_zip: "pair_keys ts = map (\<lambda>(a, b). pair_key a b) (zip ts (tl ts))"
  by (induction ts rule: pair_keys.induct) auto

lemma get_pair_stats_search:
  "get_pair_stats ts = Some stats \<Longrightarrow>
   hash_search stats k = (if k \<in> set (pair_keys ts) then Some (int (count_list (pair_keys ts) k)) else None)"
  by (auto simp: get_pair_stats_def foldl_insert_search [OF ht_create_inv] hash_search_create
      split: if_splits)

text \<open>No adjacent (first, second) in the output of the merge loop.\<close>

lemma merge_loop_head:
  "merge_loop f s ts \<noteq> [] \<Longrightarrow>
   hd (merge_loop f s ts) = hd ts \<or> (hd (merge_loop f s ts) = merged_token f s \<and> hd ts = f \<and> s \<in> set ts)"
  by (induction f s ts rule: merge_loop.induct) auto

lemma merge_loop_Nil: "merge_loop f s ts = [] \<longleftrightarrow> ts = []"
  by (induction f s ts rule: merge_loop.induct) auto

lemma merge_loop_no_pair:
  assumes "\<forall>t \<in> set ts. t \<noteq> []" and "length f + length s < 256"
  shows "(f, s) \<notin> set (zip (merge_loop f s ts) (tl (merge_loop f s ts)))"
  using assms
proof (induction f s ts rule: merge_loop.induct)
  case (1 f s a b rest)
  show ?case
  proof (cases "a = f \<and> b = s")
    case True
    with "1.prems" have ne: "f \<noteq> []" "s \<noteq> []" by auto
    then have m: "merged_token f s \<noteq> f" using "1.prems"(2) by (simp add: merged_token_def)
    from True "1.IH"(1) "1.prems" have ih: "(f, s) \<notin> set (zip (merge_loop f s rest) (tl (merge_loop f s rest)))"
      by simp
    show ?thesis
    proof (cases "merge_loop f s rest")
      case Nil
      with True show ?thesis by simp
    next
      case (Cons x xs)
      with True ih m show ?thesis by auto
    qed
  next
    case False
    with "1.IH"(2) "1.prems" have ih: "(f, s) \<notin> set (zip (merge_loop f s (b # rest)) (tl (merge_loop f s (b # rest))))"
      by simp
    obtain x xs where c: "merge_loop f s (b # rest) = x # xs"
      by (cases "merge_loop f s (b # rest)") (auto simp: merge_loop_Nil)
    from merge_loop_head [of f s "b # rest"] c
    have hd: "x = b \<or> (x = merged_token f s \<and> b = f \<and> s \<in> set (b # rest))" by simp
    have "(a, x) \<noteq> (f, s)"
    proof
      assume eq: "(a, x) = (f, s)"
      from hd show False
      proof
        assume "x = b" with eq False show False by simp
      next
        assume h: "x = merged_token f s \<and> b = f \<and> s \<in> set (b # rest)"
        with "1.prems"(1) have "f \<noteq> []" by auto
        with "1.prems"(2) have "merged_token f s \<noteq> s" by (simp add: merged_token_def)
        with h eq show False by simp
      qed
    qed
    with False ih c show ?thesis by auto
  qed
qed simp_all


lemma merge_loop_set:
  "x \<in> set (merge_loop f s ts) \<Longrightarrow>
   x \<in> set ts \<or> (x = merged_token f s \<and> f \<in> set ts \<and> s \<in> set ts)"
  by (induction f s ts rule: merge_loop.induct) (auto split: if_splits)

lemma split_at_space_unique:
  assumes "CHR '' '' \<notin> set x" and "CHR '' '' \<notin> set f" and "x @ '' '' @ y = f @ '' '' @ s"
  shows "x = f \<and> y = s"
proof -
  have tw: "\<And>u v. CHR '' '' \<notin> set u \<Longrightarrow> takeWhile (\<lambda>c. c \<noteq> CHR '' '') (u @ '' '' @ v) = u"
  proof -
    fix u v :: string
    show "CHR '' '' \<notin> set u \<Longrightarrow> takeWhile (\<lambda>c. c \<noteq> CHR '' '') (u @ '' '' @ v) = u"
      by (induction u) auto
  qed
  have "takeWhile (\<lambda>c. c \<noteq> CHR '' '') (x @ '' '' @ y) = x"
    using assms(1) by (rule tw)
  moreover have "takeWhile (\<lambda>c. c \<noteq> CHR '' '') (f @ '' '' @ s) = f"
    using assms(2) by (rule tw)
  ultimately have "x = f" using assms(3) by simp
  with assms(3) show ?thesis by simp
qed

lemma pair_first_no_space: "CHR '' '' \<notin> set (pair_first pair)"
  unfolding pair_first_def by (auto dest: set_takeWhileD)

lemma take_eq_short: "take n xs = ys \<Longrightarrow> length ys < n \<Longrightarrow> xs = ys"
proof -
  assume t: "take n xs = ys" and l: "length ys < n"
  then have "min (length xs) n < n" by (metis length_take)
  then have "length xs \<le> n" by simp
  with t show ?thesis by simp
qed

subsection \<open>The best pair\<close>

lemma best_fold_cases:
  "foldl best_step acc es = acc \<or> (\<exists>item \<in> set es. foldl best_step acc es = (Some (fst item), snd item))"
proof (induction es arbitrary: acc)
  case Nil
  then show ?case by simp
next
  case (Cons e es)
  from Cons.IH [of "best_step acc e"] show ?case
    by (auto simp: best_step_def split: if_splits)
qed

lemma best_fold_mono: "snd acc \<le> snd (foldl best_step acc es)"
proof (induction es arbitrary: acc)
  case Nil
  then show ?case by simp
next
  case (Cons e es)
  have "snd acc \<le> snd (best_step acc e)" by (simp add: best_step_def)
  with Cons.IH [of "best_step acc e"] show ?case by simp
qed

lemma best_fold_max: "item \<in> set es \<Longrightarrow> snd item \<le> snd (foldl best_step acc es)"
proof (induction es arbitrary: acc)
  case Nil
  then show ?case by simp
next
  case (Cons e es)
  show ?case
  proof (cases "item = e")
    case True
    have "snd e \<le> snd (best_step acc e)" by (simp add: best_step_def)
    with best_fold_mono [of "best_step acc e" es] True show ?thesis by simp
  next
    case False
    with Cons.prems have "item \<in> set es" by simp
    from Cons.IH [OF this, of "best_step acc e"] show ?thesis by simp
  qed
qed

lemma get_best_pair_empty: "ht_entries stats = [] \<Longrightarrow> get_best_pair stats = (None, - 1)"
  by (simp add: get_best_pair_def)

lemma get_best_pair_Some:
  assumes "get_best_pair stats = (Some k, c)"
  shows "(k, c) \<in> set (ht_entries stats)" and "\<forall>item \<in> set (ht_entries stats). snd item \<le> c"
proof -
  from best_fold_cases [of "(None, - 1)" "ht_entries stats"] assms
  show "(k, c) \<in> set (ht_entries stats)" by (auto simp: get_best_pair_def)
  from best_fold_max [of _ "ht_entries stats" "(None, - 1)"] assms
  show "\<forall>item \<in> set (ht_entries stats). snd item \<le> c" by (auto simp: get_best_pair_def)
qed

lemma get_best_pair_exists:
  assumes "item \<in> set (ht_entries stats)" and "0 \<le> snd item"
  shows "\<exists>k c. get_best_pair stats = (Some k, c)"
proof -
  from best_fold_max [OF assms(1), of "(None, - 1)"] assms(2)
  have "0 \<le> snd (get_best_pair stats)" by (simp add: get_best_pair_def)
  with best_fold_cases [of "(None, - 1)" "ht_entries stats"] show ?thesis
    by (auto simp: get_best_pair_def)
qed

lemma ht_entries_search:
  assumes "ht_inv ht"
  shows "(k, c) \<in> set (ht_entries ht) \<longleftrightarrow> hash_search ht k = Some c"
proof -
  from assms have "distinct (map fst (ht_entries ht))"
    by (auto simp: ht_inv_iff ht_entries_concat)
  then show ?thesis by (simp add: hash_search_map_of [OF assms])
qed

lemma get_pair_stats_inv: "get_pair_stats ts = Some stats \<Longrightarrow> ht_inv stats"
  by (auto simp: get_pair_stats_def foldl_insert_inv ht_create_inv split: if_splits)

lemma merge_pair_no_key:
  assumes "\<forall>t \<in> set tokens. t \<noteq> [] \<and> CHR '' '' \<notin> set t"
    and "length pair < 255"
  shows "pair \<notin> set (pair_keys (merge_pair tokens pair))"
proof
  let ?R = "merge_pair tokens pair"
  assume "pair \<in> set (pair_keys ?R)"
  then obtain x y where xy: "(x, y) \<in> set (zip ?R (tl ?R))" and k: "pair_key x y = pair"
    by (auto simp: pair_keys_zip)
  from k assms(2) have eq: "x @ '' '' @ y = pair"
    unfolding pair_key_def by (rule take_eq_short)
  then have sp: "CHR '' '' \<in> set pair" by auto
  let ?f = "pair_first pair" and ?s = "pair_second pair"
  from sp have R: "?R = merge_loop ?f ?s tokens" by (simp add: merge_pair_def)
  from pair_split [OF sp] have p: "pair = ?f @ '' '' @ ?s" .
  then have "length pair = length ?f + 1 + length ?s"
    by (metis length_append length_Cons list.size(3) One_nat_def add.assoc plus_1_eq_Suc append_Cons append_Nil)
  with assms(2) have len: "length ?f + length ?s < 256" by simp
  from xy have "x \<in> set ?R" by (auto dest: set_zip_leftD)
  with R merge_loop_set [of x ?f ?s tokens]
  have "x \<in> set tokens \<or> (x = merged_token ?f ?s \<and> ?f \<in> set tokens \<and> ?s \<in> set tokens)"
    by simp
  then have "CHR '' '' \<notin> set x"
  proof
    assume "x \<in> set tokens" with assms(1) show ?thesis by auto
  next
    assume "x = merged_token ?f ?s \<and> ?f \<in> set tokens \<and> ?s \<in> set tokens"
    with assms(1) show ?thesis by (auto simp: merged_token_def dest: in_set_takeD)
  qed
  from split_at_space_unique [OF this pair_first_no_space] eq p
  have "x = ?f \<and> y = ?s" by metis
  with xy R have "(?f, ?s) \<in> set (zip (merge_loop ?f ?s tokens) (tl (merge_loop ?f ?s tokens)))"
    by simp
  moreover from assms(1) have "\<forall>t \<in> set tokens. t \<noteq> []" by simp
  ultimately show False using merge_loop_no_pair [OF _ len] by blast
qed

text \<open>
  C5, as the code has it. When every token of the sequence is non-empty and free of spaces and
  the pair key is shorter than the 255 bytes a key buffer holds, the statistics recomputed on
  the output of \<open>merge_pair\<close> have no entry for the pair just applied: its count is zero.
\<close>

theorem merge_pair_leaves_no_pair:
  assumes "\<forall>t \<in> set tokens. t \<noteq> [] \<and> CHR '' '' \<notin> set t"
    and "length pair < 255"
  shows "case get_pair_stats (merge_pair tokens pair) of
           None \<Rightarrow> True
         | Some stats \<Rightarrow> hash_search stats pair = None"
proof (cases "get_pair_stats (merge_pair tokens pair)")
  case None
  then show ?thesis by simp
next
  case (Some stats)
  with get_pair_stats_search [OF Some] merge_pair_no_key [OF assms] show ?thesis by simp
qed

theorem merge_pair_leaves_no_pair_witness:
  "list_all (\<lambda>t. t \<noteq> [] \<and> CHR '' '' \<notin> set t) [''[C]'', ''[C]'', ''[C]'', ''[N]'']
   \<and> length ''[C] [C]'' < 255
   \<and> merge_pair [''[C]'', ''[C]'', ''[C]'', ''[N]''] ''[C] [C]'' = [''[C][C]'', ''[C]'', ''[N]'']
   \<and> (case get_pair_stats [''[C][C]'', ''[C]'', ''[N]''] of
         None \<Rightarrow> True
       | Some stats \<Rightarrow> hash_search stats ''[C] [C]'' = None)"
proof -
  have a: "\<forall>t \<in> set [''[C]'', ''[C]'', ''[C]'', ''[N]'']. t \<noteq> [] \<and> CHR '' '' \<notin> set t" by simp
  have b: "length ''[C] [C]'' < 255" by simp
  have c: "merge_pair [''[C]'', ''[C]'', ''[C]'', ''[N]''] ''[C] [C]'' = [''[C][C]'', ''[C]'', ''[N]'']"
    by (simp add: merge_pair_def pair_first_def pair_second_def merged_token_def)
  from merge_pair_leaves_no_pair [OF a b] a b c show ?thesis by simp
qed

text \<open>
  Without the restriction the property fails. The SELFIES and SMILES patterns both accept the
  bracket group \<open>[C C]\<close>; for the tokens \<open>[C C]\<close>, \<open>[N]\<close> the best pair is the key
  \<open>[C C] [N]\<close>, which \<open>merge_pair\<close> splits at its first space into \<open>[C\<close> and \<open>C] [N]\<close>, so
  nothing is merged and the recomputed statistics still count the pair once.
\<close>

theorem merge_pair_leftover_counterexample:
  "fst (get_best_pair (the (get_pair_stats [''[C C]'', ''[N]'']))) = Some ''[C C] [N]''
   \<and> get_pair_stats (merge_pair [''[C C]'', ''[N]''] ''[C C] [N]'') \<noteq> None
   \<and> hash_search (the (get_pair_stats (merge_pair [''[C C]'', ''[N]''] ''[C C] [N]''))) ''[C C] [N]''
       = Some 1"
proof -
  let ?ts = "[''[C C]'', ''[N]'']" and ?p = "''[C C] [N]''"
  obtain stats where st: "get_pair_stats ?ts = Some stats"
    by (simp add: get_pair_stats_def)
  have keys: "pair_keys ?ts = [?p]" by (simp add: pair_key_def)
  have inv: "ht_inv stats" using st by (rule get_pair_stats_inv)
  have look: "\<And>k. hash_search stats k = (if k = ?p then Some 1 else None)"
    unfolding get_pair_stats_search [OF st] keys by simp
  then have "(?p, 1) \<in> set (ht_entries stats)" by (simp add: ht_entries_search [OF inv])
  from get_best_pair_exists [OF this] obtain k c where best: "get_best_pair stats = (Some k, c)"
    by auto
  from get_best_pair_Some(1) [OF best] have "hash_search stats k = Some c"
    by (simp add: ht_entries_search [OF inv])
  with look [of k] have "k = ?p" by (simp split: if_splits)
  with best have 1: "fst (get_best_pair stats) = Some ?p" by simp
  have 2: "merge_pair ?ts ?p = ?ts"
    by (simp add: merge_pair_def pair_first_def pair_second_def)
  from 1 2 st look [of ?p] show ?thesis by simp
qed

section \<open>The segmenter\<close>

text \<open>
  \<open>pre_tokenize\<close> compiles one of two constant patterns with \<open>regcomp\<close> (which succeeds on
  them) and calls \<open>regexec\<close> in a loop. \<open>regexec\<close> is the C library's; it is modelled for
  these two patterns by POSIX leftmost-longest matching: the match starts at the first
  position where some alternative matches and is the longest one there.

  SELFIES: \<open>(\[[^]]+\]|\.)\<close>.
  SMILES: \<open>(\[[^]]+\]|Br?|Cl?|N|O|S|P|F|I|b|c|n|o|s|p|\(|\)|\.|=|#|-|\+|\\|/|:|~|@|\?|>|\*|\$|%[0-9]{2}|[0-9])\<close>.
\<close>

definition is_digit :: "char \<Rightarrow> bool" where
  "is_digit c \<longleftrightarrow> c \<in> set ''0123456789''"

text \<open>\<open>\[[^]]+\]\<close> at the head of the text: an opening bracket, one or more characters other
  than \<open>]\<close>, and the closing bracket.\<close>

definition bracket_match :: "string \<Rightarrow> nat option" where
  "bracket_match s =
     (case s of
        [] \<Rightarrow> None
      | c # rest \<Rightarrow>
          if c = CHR ''[''
          then (let body = takeWhile (\<lambda>x. x \<noteq> CHR '']'') rest
                in if body \<noteq> [] \<and> length body < length rest then Some (length body + 2) else None)
          else None)"

definition selfies_match :: "string \<Rightarrow> nat option" where
  "selfies_match s =
     (case s of
        [] \<Rightarrow> None
      | c # rest \<Rightarrow> if c = CHR ''.'' then Some 1 else bracket_match s)"

definition smiles_match :: "string \<Rightarrow> nat option" where
  "smiles_match s =
     (case s of
        [] \<Rightarrow> None
      | c # rest \<Rightarrow>
          if c = CHR ''['' then bracket_match s
          else if c = CHR ''B'' then (if take 1 rest = ''r'' then Some 2 else Some 1)
          else if c = CHR ''C'' then (if take 1 rest = ''l'' then Some 2 else Some 1)
          else if c \<in> set ''NOSPFIbcnosp().=#-+/:~@?>*$'' \<or> c = CHR 0x5C then Some 1
          else if c = CHR ''%''
          then (if 2 \<le> length rest \<and> is_digit (rest ! 0) \<and> is_digit (rest ! 1) then Some 3 else None)
          else if is_digit c then Some 1
          else None)"

definition match_here :: "bool \<Rightarrow> string \<Rightarrow> nat option" where
  "match_here input_format_is_smiles s =
     (if input_format_is_smiles then smiles_match s else selfies_match s)"

text \<open>The offsets \<open>rm_so\<close> and \<open>rm_eo\<close> of the leftmost match, or no match.\<close>

fun regexec :: "bool \<Rightarrow> string \<Rightarrow> (nat \<times> nat) option" where
  "regexec fmt [] = None"
| "regexec fmt (c # s) =
     (case match_here fmt (c # s) of
        Some n \<Rightarrow> Some (0, n)
      | None \<Rightarrow> (case regexec fmt s of None \<Rightarrow> None | Some (so, eo) \<Rightarrow> Some (Suc so, Suc eo)))"

lemma match_here_pos: "match_here fmt s = Some n \<Longrightarrow> 0 < n"
  by (auto simp: match_here_def smiles_match_def selfies_match_def bracket_match_def Let_def
      split: if_splits list.splits)

lemma regexec_pos: "regexec fmt s = Some (so, eo) \<Longrightarrow> 0 < eo"
  by (induction s arbitrary: so eo) (auto dest: match_here_pos split: option.splits)

function tokenize_loop :: "bool \<Rightarrow> string \<Rightarrow> string list" where
  "tokenize_loop fmt p =
     (case regexec fmt p of
        None \<Rightarrow> []
      | Some (so, eo) \<Rightarrow> take (eo - so) (drop so p) # tokenize_loop fmt (drop eo p))"
  by pat_completeness auto
termination
proof (relation "measure (\<lambda>(fmt, p). length p)")
  show "wf (measure (\<lambda>(fmt, p). length p))" by simp
next
  fix fmt :: bool and p :: string and x2 so eo
  assume "regexec fmt p = Some x2" and "(so, eo) = x2"
  then have r: "regexec fmt p = Some (so, eo)" by simp
  then have "0 < eo" by (rule regexec_pos)
  moreover from r have "p \<noteq> []" by auto
  ultimately show "((fmt, drop eo p), (fmt, p)) \<in> measure (\<lambda>(fmt, p). length p)" by simp
qed

declare tokenize_loop.simps [simp del]

definition pre_tokenize :: "bool \<Rightarrow> string \<Rightarrow> string list" where
  "pre_tokenize input_format_is_smiles text = tokenize_loop input_format_is_smiles text"

text \<open>
  C7. Under the SELFIES pattern the SMILES string \<open>CCO\<close> has no match at all (no bracket
  group, no \<open>.\<close>): the three characters are skipped and the token sequence is empty.
\<close>

theorem selfies_segmenting_smiles_is_empty: "pre_tokenize False ''CCO'' = []"
  by (simp add: pre_tokenize_def tokenize_loop.simps match_here_def selfies_match_def bracket_match_def)

text \<open>The same for every text without \<open>[\<close> and \<open>.\<close>; in a mixed text the characters
  outside the matches are passed over.\<close>

lemma regexec_selfies_none:
  "CHR ''['' \<notin> set s \<Longrightarrow> CHR ''.'' \<notin> set s \<Longrightarrow> regexec False s = None"
  by (induction s) (auto simp: match_here_def selfies_match_def bracket_match_def)

lemma pre_tokenize_selfies_skips:
  "CHR ''['' \<notin> set s \<Longrightarrow> CHR ''.'' \<notin> set s \<Longrightarrow> pre_tokenize False s = []"
  by (simp add: pre_tokenize_def tokenize_loop.simps regexec_selfies_none)

lemma pre_tokenize_selfies_mixed: "pre_tokenize False ''C[C]O.N'' = [''[C]'', ''.'']"
  by (simp add: pre_tokenize_def tokenize_loop.simps match_here_def selfies_match_def bracket_match_def)

lemma pre_tokenize_scenario_A: "pre_tokenize False ''[C][C][C][N]'' = [''[C]'', ''[C]'', ''[C]'', ''[N]'']"
  by (simp add: pre_tokenize_def tokenize_loop.simps match_here_def selfies_match_def bracket_match_def)

lemma pre_tokenize_bracket_with_space:
  "pre_tokenize False ''[C C][N]'' = [''[C C]'', ''[N]'']"
  "pre_tokenize True ''[C C][N]'' = [''[C C]'', ''[N]'']"
  by (simp_all add: pre_tokenize_def tokenize_loop.simps match_here_def selfies_match_def
      smiles_match_def bracket_match_def)

section \<open>C library input and output\<close>

text \<open>Newline, tab, the double quote and the backslash.\<close>

abbreviation NL :: char where "NL \<equiv> CHR 0x0A"
abbreviation TAB :: char where "TAB \<equiv> CHR 0x09"
abbreviation DQ :: char where "DQ \<equiv> CHR 0x22"
abbreviation BSL :: char where "BSL \<equiv> CHR 0x5C"

text \<open>\<open>printf("%d")\<close>: the decimal digits of an \<open>int\<close>, with a minus sign when negative.\<close>

definition digit_char :: "nat \<Rightarrow> char" where
  "digit_char d = ''0123456789'' ! d"

fun show_nat :: "nat \<Rightarrow> string" where
  "show_nat n = (if n < 10 then [digit_char n] else show_nat (n div 10) @ [digit_char (n mod 10)])"

declare show_nat.simps [simp del]

definition show_int :: "int \<Rightarrow> string" where
  "show_int i = (if i < 0 then CHR ''-'' # show_nat (nat (- i)) else show_nat (nat i))"

text \<open>
  \<open>fgets(line, n, file)\<close> on the unread rest of a file: at most \<open>n - 1\<close> characters, up to
  and including the first newline; NULL at the end of the file.
\<close>

fun fgets_chars :: "nat \<Rightarrow> string \<Rightarrow> string \<times> string" where
  "fgets_chars k [] = ([], [])"
| "fgets_chars k (c # s) =
     (if k = 0 then ([], c # s)
      else if c = CHR 0x0A then ([c], s)
      else (case fgets_chars (k - 1) s of (line, rest) \<Rightarrow> (c # line, rest)))"

definition fgets :: "nat \<Rightarrow> string \<Rightarrow> (string \<times> string) option" where
  "fgets n file = (if file = [] then None else Some (fgets_chars (n - 1) file))"

lemma fgets_chars_append: "fgets_chars k s = (line, rest) \<Longrightarrow> line @ rest = s"
  by (induction k s arbitrary: line rest rule: fgets_chars.induct) (auto split: if_splits prod.splits)

lemma fgets_chars_progress: "fgets_chars k s = (line, rest) \<Longrightarrow> 0 < k \<Longrightarrow> s \<noteq> [] \<Longrightarrow> line \<noteq> []"
  by (cases s) (auto split: if_splits prod.splits)

lemma fgets_shorter:
  assumes "fgets n file = Some (line, rest)" and "1 < n"
  shows "length rest < length file"
proof -
  from assms(1) have ne: "file \<noteq> []" and f: "fgets_chars (n - 1) file = (line, rest)"
    by (auto simp: fgets_def split: if_splits)
  from fgets_chars_progress [OF f _ ne] assms(2) have "line \<noteq> []" by simp
  with fgets_chars_append [OF f] show ?thesis by (metis length_append length_greater_0_conv less_add_same_cancel2)
qed

section \<open>Corpus training\<close>

text \<open>The lines of the corpus file, as the \<open>fgets\<close> loops with their 65536-byte buffer read them.\<close>

function corpus_lines :: "string \<Rightarrow> string list" where
  "corpus_lines file =
     (case fgets 65536 file of None \<Rightarrow> [] | Some (line, rest) \<Rightarrow> line # corpus_lines rest)"
  by pat_completeness auto
termination
proof (relation "measure length")
  show "wf (measure length)" by simp
next
  fix content :: string and x2 line rest
  assume "fgets 65536 content = Some x2" and "(line, rest) = x2"
  then have "fgets 65536 content = Some (line, rest)" by simp
  from fgets_shorter [OF this] show "(rest, content) \<in> measure length" by simp
qed

declare corpus_lines.simps [simp del]

text \<open>Remove the newline if present.\<close>

definition chomp :: "string \<Rightarrow> string" where
  "chomp line = (if line \<noteq> [] \<and> last line = CHR 0x0A then butlast line else line)"

text \<open>
  \<open>fgets\<close> stores every byte it reads, a NUL byte of the file included, but \<open>strlen\<close> and
  \<open>regexec\<close> take the buffer as a C string: what they see of a line are the bytes before its
  first NUL.
\<close>

definition c_string :: "string \<Rightarrow> string" where
  "c_string buf = takeWhile (\<lambda>c. c \<noteq> CHR 0x00) buf"

text \<open>First pass: every token of every non-empty line is counted; \<open>line_count\<close> molecules.\<close>

definition first_pass_line :: "bool \<Rightarrow> HashTable \<times> nat \<Rightarrow> string \<Rightarrow> HashTable \<times> nat" where
  "first_pass_line fmt acc line =
     (if chomp (c_string line) = [] then acc
      else (foldl hash_insert_or_increment (fst acc) (pre_tokenize fmt (chomp (c_string line))),
            snd acc + 1))"

definition first_pass :: "bool \<Rightarrow> string list \<Rightarrow> HashTable \<times> nat" where
  "first_pass fmt lines = foldl (first_pass_line fmt) (ht_create HT_DEFAULT_SIZE, 0) lines"

text \<open>Second pass: the token lists are kept, while fewer than \<open>line_count\<close> are stored.\<close>

fun second_pass :: "bool \<Rightarrow> nat \<Rightarrow> string list \<Rightarrow> string list list" where
  "second_pass fmt n [] = []"
| "second_pass fmt n (line # lines) =
     (if n = 0 then []
      else if chomp (c_string line) = [] then second_pass fmt n lines
      else pre_tokenize fmt (chomp (c_string line)) # second_pass fmt (n - 1) lines)"

record train_state =
  vocab :: HashTable
  all_tokens :: "string list list"
  merges :: "string list"

definition count_pairs :: "HashTable \<Rightarrow> string list \<Rightarrow> HashTable" where
  "count_pairs pair_stats tokens =
     (if length tokens < 2 then pair_stats
      else foldl hash_insert_or_increment pair_stats (pair_keys tokens))"

definition collect_pair_stats :: "string list list \<Rightarrow> HashTable" where
  "collect_pair_stats all = foldl count_pairs (ht_create HT_DEFAULT_SIZE) all"

text \<open>
  The merged token is stored with the frequency of the pair: an existing item has its count
  overwritten, a new item is linked in with that count.
\<close>

definition store_merged :: "HashTable \<Rightarrow> string \<Rightarrow> int \<Rightarrow> HashTable" where
  "store_merged v merged pair_count =
     (case hash_search v merged of
        Some c \<Rightarrow> ht_set_count v merged pair_count
      | None \<Rightarrow> (ht_push v merged pair_count)\<lparr>ht_count := (ht_count v + 1) mod 2 ^ 32\<rparr>)"

text \<open>
  One iteration of the merge loop; the flag is False where the loop is left with \<open>break\<close>.
\<close>

definition merge_round :: "train_state \<Rightarrow> train_state \<times> bool" where
  "merge_round st =
     (case get_best_pair (collect_pair_stats (all_tokens st)) of
        (None, pair_count) \<Rightarrow> (st, False)
      | (Some best_pair, pair_count) \<Rightarrow>
          (let st1 = st\<lparr>merges := merges st @ [best_pair]\<rparr>
           in if CHR '' '' \<notin> set best_pair then (st1, False)
              else (let merged = merged_token (pair_first best_pair) (pair_second best_pair)
                    in (st1\<lparr>vocab := store_merged (vocab st) merged pair_count,
                            all_tokens := map (\<lambda>tokens. merge_pair tokens best_pair) (all_tokens st)\<rparr>,
                        True))))"

fun merge_rounds :: "nat \<Rightarrow> train_state \<Rightarrow> train_state" where
  "merge_rounds 0 st = st"
| "merge_rounds (Suc n) st =
     (case merge_round st of (st', continue) \<Rightarrow> if continue then merge_rounds n st' else st')"

text \<open>\<open>PATH_MAX\<close> of \<open>limits.h\<close>, as on Linux.\<close>

definition PATH_MAX :: nat where
  "PATH_MAX = 4096"

text \<open>
  \<open>train_bpe_from_file\<close>: NULL for a negative merge count, for a corpus file that cannot be
  opened (\<open>None\<close>) and for an output path that does not fit \<open>PATH_MAX\<close>; otherwise the
  vocabulary, which is returned, and the merge list, which goes to the saved files.
\<close>

definition train_bpe_from_file ::
  "bool \<Rightarrow> string \<Rightarrow> string option \<Rightarrow> int \<Rightarrow> (HashTable \<times> string list) option" where
  "train_bpe_from_file fmt output_directory corpus num_merges =
     (if num_merges < 0 then None
      else case corpus of
        None \<Rightarrow> None
      | Some file \<Rightarrow>
          (let lines = corpus_lines file;
               (v, line_count) = first_pass fmt lines;
               st = merge_rounds (nat num_merges)
                      \<lparr>vocab = v, all_tokens = second_pass fmt line_count lines, merges = []\<rparr>;
               vocab_file = output_directory @ ''/vocab_'' @ show_int num_merges @ ''.txt'';
               vocab_base = output_directory @ ''/vocab_'' @ show_int num_merges
           in if PATH_MAX \<le> length vocab_file \<or> PATH_MAX \<le> length vocab_base then None
              else Some (vocab st, merges st)))"

section \<open>Properties of corpus training\<close>

subsection \<open>Pair statistics of the corpus\<close>

lemma pair_keys_short: "length ts < 2 \<Longrightarrow> pair_keys ts = []"
  by (cases ts rule: pair_keys.cases) auto

lemma count_pairs_eq: "count_pairs stats ts = foldl hash_insert_or_increment stats (pair_keys ts)"
  by (simp add: count_pairs_def pair_keys_short)

lemma foldl_count_pairs:
  "foldl count_pairs stats all = foldl hash_insert_or_increment stats (concat (map pair_keys all))"
  by (induction all arbitrary: stats) (simp_all add: count_pairs_eq)

lemma collect_pair_stats_eq:
  "collect_pair_stats all =
     foldl hash_insert_or_increment (ht_create HT_DEFAULT_SIZE) (concat (map pair_keys all))"
  by (simp add: collect_pair_stats_def foldl_count_pairs)

lemma collect_pair_stats_inv: "ht_inv (collect_pair_stats all)"
  by (simp add: collect_pair_stats_eq foldl_insert_inv ht_create_inv)

lemma collect_pair_stats_search:
  "hash_search (collect_pair_stats all) k =
     (if k \<in> set (concat (map pair_keys all))
      then Some (int (count_list (concat (map pair_keys all)) k)) else None)"
  unfolding collect_pair_stats_eq
  by (simp add: foldl_insert_search [OF ht_create_inv] hash_search_create)

lemma collect_pair_stats_no_pairs:
  assumes "\<forall>ts \<in> set all. length ts < 2"
  shows "ht_entries (collect_pair_stats all) = []"
proof -
  from assms have "concat (map pair_keys all) = []" by (simp add: pair_keys_short)
  then show ?thesis unfolding collect_pair_stats_eq by (simp only: foldl_Nil ht_create_entries)
qed

text \<open>The statistics of the next round, over the whole rewritten corpus, have no entry for
  the pair just applied either.\<close>

lemma merged_corpus_has_no_pair:
  assumes "\<forall>ts \<in> set all. \<forall>t \<in> set ts. t \<noteq> [] \<and> CHR '' '' \<notin> set t"
    and "length pair < 255"
  shows "hash_search (collect_pair_stats (map (\<lambda>tokens. merge_pair tokens pair) all)) pair = None"
proof -
  have "pair \<notin> set (concat (map pair_keys (map (\<lambda>tokens. merge_pair tokens pair) all)))"
    using assms merge_pair_no_key [of _ pair] by auto
  then show ?thesis by (simp add: collect_pair_stats_search del: map_map)
qed

subsection \<open>Leaving the merge loop\<close>

lemma merge_round_no_pair:
  "fst (get_best_pair (collect_pair_stats (all_tokens st))) = None \<Longrightarrow> merge_round st = (st, False)"
  by (cases "get_best_pair (collect_pair_stats (all_tokens st))") (simp add: merge_round_def)

lemma merge_rounds_no_pair:
  "fst (get_best_pair (collect_pair_stats (all_tokens st))) = None \<Longrightarrow> merge_rounds n st = st"
  by (cases n) (simp_all add: merge_round_no_pair)

lemma no_pairs_no_best:
  "\<forall>ts \<in> set all. length ts < 2 \<Longrightarrow> fst (get_best_pair (collect_pair_stats all)) = None"
  by (simp add: get_best_pair_empty collect_pair_stats_no_pairs)

lemma second_pass_set:
  "set (second_pass fmt n lines) \<subseteq> (\<lambda>line. pre_tokenize fmt (chomp (c_string line))) ` set lines"
  by (induction fmt n lines rule: second_pass.induct) auto

text \<open>
  C6. A corpus whose lines (what the code sees of them: the bytes before the first NUL,
  without the newline) all segment into fewer than two tokens has no adjacent pair: for
  every merge budget \<open>train_bpe_from_file\<close> returns normally with the vocabulary of the first
  pass and an empty merge list. More generally, whenever \<open>get_best_pair\<close> finds no pair the
  merge loop is left at once, whatever budget remains.
\<close>

theorem training_stops_without_pair:
  assumes "0 \<le> num_merges"
    and "length (output_directory @ ''/vocab_'' @ show_int num_merges @ ''.txt'') < PATH_MAX"
    and "\<forall>line \<in> set (corpus_lines corpus). length (pre_tokenize fmt (chomp (c_string line))) < 2"
  shows "train_bpe_from_file fmt output_directory (Some corpus) num_merges
           = Some (fst (first_pass fmt (corpus_lines corpus)), [])
         \<and> (\<forall>st n. fst (get_best_pair (collect_pair_stats (all_tokens st))) = None
                    \<longrightarrow> merge_rounds n st = st)"
proof
  let ?lines = "corpus_lines corpus"
  obtain v line_count where fp: "first_pass fmt ?lines = (v, line_count)" by (cases "first_pass fmt ?lines")
  let ?st = "\<lparr>vocab = v, all_tokens = second_pass fmt line_count ?lines, merges = []\<rparr>"
  from assms(3) second_pass_set [of fmt line_count ?lines]
  have "\<forall>ts \<in> set (all_tokens ?st). length ts < 2" by auto
  then have "merge_rounds (nat num_merges) ?st = ?st"
    by (intro merge_rounds_no_pair no_pairs_no_best)
  moreover from assms(2)
  have "\<not> PATH_MAX \<le> length (output_directory @ ''/vocab_'' @ show_int num_merges @ ''.txt'')"
    and "\<not> PATH_MAX \<le> length (output_directory @ ''/vocab_'' @ show_int num_merges)"
    by simp_all
  ultimately show "train_bpe_from_file fmt output_directory (Some corpus) num_merges
           = Some (fst (first_pass fmt (corpus_lines corpus)), [])"
    using assms(1) fp by (simp add: train_bpe_from_file_def Let_def)
next
  show "\<forall>st n. fst (get_best_pair (collect_pair_stats (all_tokens st))) = None
                    \<longrightarrow> merge_rounds n st = st"
    by (simp add: merge_rounds_no_pair)
qed

text \<open>
  Two lines, the second with a NUL byte after its first token: the code sees \<open>[C]\<close> twice,
  counts it twice and performs no merge; \<open>[N]\<close>, behind the NUL, is never seen.
\<close>

theorem training_stops_without_pair_witness:
  "(0 :: int) \<le> 5
   \<and> length (''.'' @ ''/vocab_'' @ show_int 5 @ ''.txt'') < PATH_MAX
   \<and> list_all (\<lambda>line. length (pre_tokenize False (chomp (c_string line))) < 2)
         (corpus_lines (''[C]'' @ [CHR 0x0A] @ ''[C]'' @ [CHR 0x00] @ ''[N]'' @ [CHR 0x0A]))
   \<and> train_bpe_from_file False ''.''
         (Some (''[C]'' @ [CHR 0x0A] @ ''[C]'' @ [CHR 0x00] @ ''[N]'' @ [CHR 0x0A])) 5
       = Some (fst (first_pass False [''[C]'' @ [CHR 0x0A], ''[C]'' @ [CHR 0x00] @ ''[N]'' @ [CHR 0x0A]]), [])
   \<and> hash_search (fst (first_pass False [''[C]'' @ [CHR 0x0A], ''[C]'' @ [CHR 0x00] @ ''[N]'' @ [CHR 0x0A]]))
         ''[C]'' = Some 2
   \<and> hash_search (fst (first_pass False [''[C]'' @ [CHR 0x0A], ''[C]'' @ [CHR 0x00] @ ''[N]'' @ [CHR 0x0A]]))
         ''[N]'' = None"
proof -
  let ?corpus = "''[C]'' @ [CHR 0x0A] @ ''[C]'' @ [CHR 0x00] @ ''[N]'' @ [CHR 0x0A]"
  let ?lines = "[''[C]'' @ [CHR 0x0A], ''[C]'' @ [CHR 0x00] @ ''[N]'' @ [CHR 0x0A]]"
  have lines: "corpus_lines ?corpus = ?lines"
    by (simp add: corpus_lines.simps fgets_def)
  have tok: "pre_tokenize False ''[C]'' = [''[C]'']"
    by (simp add: pre_tokenize_def tokenize_loop.simps match_here_def selfies_match_def bracket_match_def)
  have a: "(0 :: int) \<le> 5" by simp
  have b: "length (''.'' @ ''/vocab_'' @ show_int 5 @ ''.txt'') < PATH_MAX"
    by (simp add: show_int_def show_nat.simps digit_char_def PATH_MAX_def)
  have c: "\<forall>line \<in> set (corpus_lines ?corpus). length (pre_tokenize False (chomp (c_string line))) < 2"
    unfolding lines by (simp add: chomp_def c_string_def tok)
  have "fst (first_pass False ?lines)
          = foldl hash_insert_or_increment (ht_create HT_DEFAULT_SIZE) [''[C]'', ''[C]'']"
    by (simp add: first_pass_def first_pass_line_def chomp_def c_string_def tok)
  then have d: "hash_search (fst (first_pass False ?lines)) ''[C]'' = Some 2"
    "hash_search (fst (first_pass False ?lines)) ''[N]'' = None"
    by (simp_all add: hash_insert_or_increment_search hash_insert_or_increment_inv ht_create_inv
        hash_search_create)
  from training_stops_without_pair [OF a b c] a b c d show ?thesis
    unfolding lines by (simp add: list_all_iff)
qed

subsection \<open>The vocabulary update of a merge round\<close>

lemma ht_keys_search:
  assumes "ht_inv ht"
  shows "fst ` set (ht_entries ht) = {k. hash_search ht k \<noteq> None}"
  using hash_search_None_keys [OF assms] by auto

lemma count_unique_tokens_card:
  assumes "ht_inv ht"
  shows "count_unique_tokens ht = card (fst ` set (ht_entries ht))"
proof -
  from assms have "distinct (map fst (ht_entries ht))"
    by (auto simp: ht_inv_iff ht_entries_concat)
  from distinct_card [OF this] show ?thesis by (simp add: count_unique_tokens_def)
qed

lemma store_merged_inv: "ht_inv v \<Longrightarrow> ht_inv (store_merged v merged c)"
  by (auto simp: store_merged_def ht_set_count_inv ht_push_inv ht_inv_count_update split: option.splits)

lemma store_merged_search:
  assumes "ht_inv v"
  shows "hash_search (store_merged v merged c) k = (if k = merged then Some c else hash_search v k)"
proof -
  from assms have pos: "0 < ht_size v" and len: "length (ht_items v) = ht_size v"
    by (auto simp: ht_inv_iff)
  show ?thesis
    by (cases "hash_search v merged")
      (simp_all add: store_merged_def hash_search_count_update hash_search_push [OF pos len]
        hash_search_set_count [OF pos len])
qed

lemma store_merged_keys:
  assumes "ht_inv v"
  shows "fst ` set (ht_entries (store_merged v merged c)) = insert merged (fst ` set (ht_entries v))"
  unfolding ht_keys_search [OF assms] ht_keys_search [OF store_merged_inv [OF assms]]
  by (auto simp: store_merged_search [OF assms])

lemma hash_insert_or_increment_keys:
  assumes "ht_inv ht"
  shows "fst ` set (ht_entries (hash_insert_or_increment ht key)) = insert key (fst ` set (ht_entries ht))"
  unfolding ht_keys_search [OF assms] ht_keys_search [OF hash_insert_or_increment_inv [OF assms]]
  by (auto simp: hash_insert_or_increment_search [OF assms])

lemma merge_round_vocab:
  "vocab (fst (merge_round st)) = vocab st
   \<or> (\<exists>merged c. vocab (fst (merge_round st)) = store_merged (vocab st) merged c)"
  by (auto simp: merge_round_def Let_def split: prod.splits option.splits)

lemma merge_round_inv: "ht_inv (vocab st) \<Longrightarrow> ht_inv (vocab (fst (merge_round st)))"
  using merge_round_vocab [of st] by (auto simp: store_merged_inv)

lemma merge_round_keys:
  assumes "ht_inv (vocab st)"
  shows "fst ` set (ht_entries (vocab (fst (merge_round st)))) = fst ` set (ht_entries (vocab st))
         \<or> (\<exists>merged. fst ` set (ht_entries (vocab (fst (merge_round st))))
                        = insert merged (fst ` set (ht_entries (vocab st))))"
  using merge_round_vocab [of st] by (auto simp: store_merged_keys [OF assms])

lemma merge_round_count:
  assumes "ht_inv (vocab st)"
  shows "count_unique_tokens (vocab st) \<le> count_unique_tokens (vocab (fst (merge_round st)))"
    and "count_unique_tokens (vocab (fst (merge_round st))) \<le> count_unique_tokens (vocab st) + 1"
proof -
  let ?K = "fst ` set (ht_entries (vocab st))"
  let ?K' = "fst ` set (ht_entries (vocab (fst (merge_round st))))"
  have fin: "finite ?K" by simp
  have c: "count_unique_tokens (vocab st) = card ?K"
    "count_unique_tokens (vocab (fst (merge_round st))) = card ?K'"
    using assms by (simp_all add: count_unique_tokens_card merge_round_inv)
  from merge_round_keys [OF assms] have "card ?K \<le> card ?K' \<and> card ?K' \<le> card ?K + 1"
  proof
    assume "?K' = ?K" then show ?thesis by simp
  next
    assume "\<exists>merged. ?K' = insert merged ?K"
    then obtain m where "?K' = insert m ?K" ..
    then show ?thesis using fin by (simp add: card_insert_if)
  qed
  with c show "count_unique_tokens (vocab st) \<le> count_unique_tokens (vocab (fst (merge_round st)))"
    and "count_unique_tokens (vocab (fst (merge_round st))) \<le> count_unique_tokens (vocab st) + 1"
    by simp_all
qed

lemma merge_rounds_Suc:
  "merge_rounds (Suc n) st =
     (if snd (merge_round st) then merge_rounds n (fst (merge_round st)) else fst (merge_round st))"
  by (simp split: prod.splits)

lemma merge_rounds_step:
  assumes "ht_inv (vocab st)"
  shows "count_unique_tokens (vocab (merge_rounds n st)) \<le> count_unique_tokens (vocab (merge_rounds (Suc n) st))
       \<and> count_unique_tokens (vocab (merge_rounds (Suc n) st)) \<le> count_unique_tokens (vocab (merge_rounds n st)) + 1
       \<and> fst ` set (ht_entries (vocab (merge_rounds n st)))
            \<subseteq> fst ` set (ht_entries (vocab (merge_rounds (Suc n) st)))"
  using assms
proof (induction n arbitrary: st)
  case 0
  have "merge_rounds (Suc 0) st = fst (merge_round st)" by (simp split: prod.splits)
  with merge_round_count [OF 0] merge_round_keys [OF 0] show ?case by auto
next
  case (Suc n)
  show ?case
  proof (cases "snd (merge_round st)")
    case True
    then have "merge_rounds (Suc n) st = merge_rounds n (fst (merge_round st))"
      and "merge_rounds (Suc (Suc n)) st = merge_rounds (Suc n) (fst (merge_round st))"
      by (simp_all only: merge_rounds_Suc if_True)
    with Suc.IH [OF merge_round_inv [OF Suc.prems]] show ?thesis by simp
  next
    case False
    then have "merge_rounds (Suc n) st = fst (merge_round st)"
      and "merge_rounds (Suc (Suc n)) st = fst (merge_round st)"
      by (simp_all only: merge_rounds_Suc if_False)
    then show ?thesis by simp
  qed
qed


text \<open>
  C9. The number of distinct tokens of the vocabulary (what \<open>count_unique_tokens\<close> counts: the
  table holds no key twice) never decreases from one merge round to the next and grows by at
  most one; every token present before a round is present after it. An insertion of the
  first pass adds its key and removes none.
\<close>

theorem vocabulary_never_shrinks:
  assumes "ht_inv (vocab st)"
  shows "count_unique_tokens (vocab (merge_rounds n st)) \<le> count_unique_tokens (vocab (merge_rounds (Suc n) st))
       \<and> count_unique_tokens (vocab (merge_rounds (Suc n) st)) \<le> count_unique_tokens (vocab (merge_rounds n st)) + 1
       \<and> fst ` set (ht_entries (vocab (merge_rounds n st)))
            \<subseteq> fst ` set (ht_entries (vocab (merge_rounds (Suc n) st)))
       \<and> fst ` set (ht_entries (hash_insert_or_increment (vocab st) key))
            = insert key (fst ` set (ht_entries (vocab st)))
       \<and> count_unique_tokens (vocab st) = card (fst ` set (ht_entries (vocab st)))"
  using merge_rounds_step [OF assms, of n] hash_insert_or_increment_keys [OF assms, of key]
    count_unique_tokens_card [OF assms] by simp

subsection \<open>Scenario A\<close>

lemma scenario_A_best:
  "get_best_pair (collect_pair_stats [[''[C]'', ''[C]'', ''[C]'', ''[N]'']]) = (Some ''[C] [C]'', 2)"
proof -
  let ?stats = "collect_pair_stats [[''[C]'', ''[C]'', ''[C]'', ''[N]'']]"
  have inv: "ht_inv ?stats" by (rule collect_pair_stats_inv)
  have look: "\<And>k. hash_search ?stats k =
      (if k = ''[C] [C]'' then Some 2 else if k = ''[C] [N]'' then Some 1 else None)"
    unfolding collect_pair_stats_search by (simp add: pair_key_def)
  then have m: "(''[C] [C]'', 2) \<in> set (ht_entries ?stats)" by (simp add: ht_entries_search [OF inv])
  from get_best_pair_exists [OF this] obtain k c where best: "get_best_pair ?stats = (Some k, c)"
    by auto
  from get_best_pair_Some(1) [OF best] have "hash_search ?stats k = Some c"
    by (simp add: ht_entries_search [OF inv])
  moreover from get_best_pair_Some(2) [OF best, rule_format, OF m] have "2 \<le> c" by simp
  ultimately have "hash_search ?stats k = Some c" and "2 \<le> c" .
  with look [of k] have "k = ''[C] [C]'' \<and> c = 2" by (auto split: if_splits)
  with best show ?thesis by simp
qed

lemma scenario_hashes: "hash ''[C][C]'' 4 = 2" "hash ''[C]'' 4 = 3" "hash ''[N]'' 4 = 2"
  by (simp_all add: hash_def)

theorem vocabulary_never_shrinks_witness:
  "ht_inv (vocab \<lparr>vocab = \<lparr>ht_items = [[], [], [(''[N]'', 1)], [(''[C]'', 3)]], ht_size = 4, ht_count = 2,
                              load_threshold = HT_DEFAULT_LOAD_THRESHOLD\<rparr>,
                    all_tokens = [[''[C]'', ''[C]'', ''[C]'', ''[N]'']], merges = []\<rparr>)
   \<and> count_unique_tokens \<lparr>ht_items = [[], [], [(''[N]'', 1)], [(''[C]'', 3)]], ht_size = 4, ht_count = 2,
                              load_threshold = HT_DEFAULT_LOAD_THRESHOLD\<rparr> = 2
   \<and> count_unique_tokens (vocab (merge_rounds (Suc 0)
          \<lparr>vocab = \<lparr>ht_items = [[], [], [(''[N]'', 1)], [(''[C]'', 3)]], ht_size = 4, ht_count = 2,
                      load_threshold = HT_DEFAULT_LOAD_THRESHOLD\<rparr>,
            all_tokens = [[''[C]'', ''[C]'', ''[C]'', ''[N]'']], merges = []\<rparr>)) = 3"
proof -
  let ?V = "\<lparr>ht_items = [[], [], [(''[N]'', 1)], [(''[C]'', 3)]], ht_size = 4, ht_count = 2,
              load_threshold = HT_DEFAULT_LOAD_THRESHOLD\<rparr>"
  let ?st = "\<lparr>vocab = ?V, all_tokens = [[''[C]'', ''[C]'', ''[C]'', ''[N]'']], merges = []\<rparr>"
  have inv: "ht_inv (vocab ?st)" by (simp add: ht_inv_def scenario_hashes)
  have c0: "count_unique_tokens ?V = 2"
    by (simp add: count_unique_tokens_def ht_entries_def upt_rec)
  have r: "vocab (merge_rounds (Suc 0) ?st) = store_merged ?V ''[C][C]'' 2"
    by (simp add: merge_round_def scenario_A_best pair_first_def pair_second_def merged_token_def)
  have "count_unique_tokens (store_merged ?V ''[C][C]'' 2) = 3"
    by (simp add: store_merged_def hash_search_def scenario_hashes ht_push_def
        count_unique_tokens_def ht_entries_def upt_rec)
  with vocabulary_never_shrinks [OF inv, of 0] inv c0 r show ?thesis by simp
qed

lemma pair_key_has_space: "length a < 255 \<Longrightarrow> CHR '' '' \<in> set (pair_key a b)"
proof -
  assume "length a < 255"
  then have "CHR '' '' \<in> set (take (255 - length a) (CHR '' '' # b))"
    by (cases "255 - length a") auto
  then show ?thesis by (simp add: pair_key_def)
qed

lemma pair_keys_have_space:
  "\<forall>t \<in> set ts. length t < 255 \<Longrightarrow> k \<in> set (pair_keys ts) \<Longrightarrow> CHR '' '' \<in> set k"
  by (induction ts rule: pair_keys.induct) (auto simp: pair_key_has_space)

lemma pair_keys_nonempty: "2 \<le> length ts \<Longrightarrow> pair_keys ts \<noteq> []"
  by (cases ts rule: pair_keys.cases) auto

text \<open>
  A round goes through whenever the corpus has a pair and the tokens fit the key buffer: the
  loop is left early only when no pair is found, or at a key cut off before its space.
\<close>

lemma merge_round_continues:
  assumes "\<exists>ts \<in> set (all_tokens st). 2 \<le> length ts"
    and "\<forall>ts \<in> set (all_tokens st). \<forall>t \<in> set ts. length t < 255"
  shows "snd (merge_round st)"
proof -
  let ?stats = "collect_pair_stats (all_tokens st)"
  let ?keys = "concat (map pair_keys (all_tokens st))"
  have inv: "ht_inv ?stats" by (rule collect_pair_stats_inv)
  from assms(1) obtain ts where ts: "ts \<in> set (all_tokens st)" "pair_keys ts \<noteq> []"
    using pair_keys_nonempty by blast
  then have "hd (pair_keys ts) \<in> set (pair_keys ts)" by simp
  with ts(1) have "hd (pair_keys ts) \<in> set ?keys" by auto
  then obtain k where k: "k \<in> set ?keys" ..
  then have "(k, int (count_list ?keys k)) \<in> set (ht_entries ?stats)"
    by (simp add: ht_entries_search [OF inv] collect_pair_stats_search)
  from get_best_pair_exists [OF this] obtain bp f where best: "get_best_pair ?stats = (Some bp, f)"
    by auto
  from get_best_pair_Some(1) [OF best] have "hash_search ?stats bp = Some f"
    by (simp add: ht_entries_search [OF inv])
  then have "bp \<in> set ?keys" by (simp add: collect_pair_stats_search split: if_splits)
  with assms(2) have "CHR '' '' \<in> set bp" using pair_keys_have_space by auto
  with best show ?thesis by (simp add: merge_round_def Let_def)
qed

text \<open>
  The keys of the statistics are the keys of the adjacent pairs of the corpus. When no token
  holds a space, a key shorter than the buffer determines its pair, and \<open>strchr\<close> splits it
  into the two tokens it was made of.
\<close>

lemma keys_of_pairs:
  "concat (map pair_keys all) = map (\<lambda>(a, b). pair_key a b) (concat (map (\<lambda>ts. zip ts (tl ts)) all))"
  by (induction all) (simp_all add: pair_keys_zip)

lemma count_list_map_inj:
  "\<forall>x \<in> set xs. g x = g y \<longrightarrow> x = y \<Longrightarrow> count_list (map g xs) (g y) = count_list xs y"
  by (induction xs) auto

lemma pair_first_key: "CHR '' '' \<notin> set a \<Longrightarrow> pair_first (a @ CHR '' '' # b) = a"
  unfolding pair_first_def by (induction a) auto

lemma pair_second_key: "CHR '' '' \<notin> set a \<Longrightarrow> pair_second (a @ CHR '' '' # b) = b"
  unfolding pair_second_def by (induction a) auto

lemma best_pair_is_adjacent:
  assumes "\<forall>ts \<in> set all. \<forall>t \<in> set ts. CHR '' '' \<notin> set t"
    and "get_best_pair (collect_pair_stats all) = (Some best_pair, f)"
    and "length best_pair < 255"
  shows "\<exists>a b. (a, b) \<in> set (concat (map (\<lambda>ts. zip ts (tl ts)) all))
           \<and> best_pair = a @ '' '' @ b
           \<and> CHR '' '' \<notin> set a
           \<and> f = int (count_list (concat (map (\<lambda>ts. zip ts (tl ts)) all)) (a, b))"
proof -
  let ?stats = "collect_pair_stats all"
  let ?pairs = "concat (map (\<lambda>ts. zip ts (tl ts)) all)"
  let ?g = "\<lambda>(a, b). pair_key a b"
  have keys: "concat (map pair_keys all) = map ?g ?pairs" by (rule keys_of_pairs)
  have nosp: "CHR '' '' \<notin> set x" if "(x, y) \<in> set ?pairs" for x y
  proof -
    from that obtain ts where "ts \<in> set all" and "(x, y) \<in> set (zip ts (tl ts))" by auto
    with assms(1) show ?thesis by (auto dest: set_zip_leftD)
  qed
  from get_best_pair_Some(1) [OF assms(2)]
  have "hash_search ?stats best_pair = Some f"
    by (simp add: ht_entries_search [OF collect_pair_stats_inv])
  then have mem: "best_pair \<in> set (map ?g ?pairs)"
    and f: "f = int (count_list (map ?g ?pairs) best_pair)"
    unfolding collect_pair_stats_search keys by (simp_all split: if_splits)
  from mem obtain a b where ab: "(a, b) \<in> set ?pairs" and k: "pair_key a b = best_pair" by auto
  from k assms(3) have eq: "a @ '' '' @ b = best_pair"
    unfolding pair_key_def by (rule take_eq_short)
  have inj: "\<forall>x \<in> set ?pairs. ?g x = ?g (a, b) \<longrightarrow> x = (a, b)"
  proof (intro ballI impI)
    fix x assume x: "x \<in> set ?pairs" and g: "?g x = ?g (a, b)"
    obtain x1 x2 where x12: "x = (x1, x2)" by (cases x)
    with g k have "pair_key x1 x2 = best_pair" by simp
    from this assms(3) have "x1 @ '' '' @ x2 = best_pair"
      unfolding pair_key_def by (rule take_eq_short)
    with eq have "x1 @ '' '' @ x2 = a @ '' '' @ b" by simp
    from split_at_space_unique [OF nosp nosp this] x ab x12 show "x = (a, b)" by simp
  qed
  from count_list_map_inj [OF inj] k f
  have "f = int (count_list ?pairs (a, b))" by simp
  with ab eq nosp [OF ab] show ?thesis by blast
qed

lemma merge_round_selected:
  assumes "get_best_pair (collect_pair_stats (all_tokens st)) = (Some (a @ '' '' @ b), f)"
    and "CHR '' '' \<notin> set a" and "length (a @ '' '' @ b) < 255"
  shows "merge_round st =
           (st\<lparr>merges := merges st @ [a @ '' '' @ b],
               vocab := store_merged (vocab st) (a @ b) f,
               all_tokens := map (\<lambda>tokens. merge_pair tokens (a @ '' '' @ b)) (all_tokens st)\<rparr>, True)"
proof -
  from assms(3) have "merged_token a b = a @ b" by (simp add: merged_token_def)
  with assms(1,2) show ?thesis
    unfolding merge_round_def by (simp add: pair_first_key pair_second_key Let_def)
qed

text \<open>
  C1, as the code has it. Let no token of the corpus contain a space, and let the merge round
  select a pair key shorter than the 255 bytes the key buffer holds. Then the key is
  \<open>a\<close>, a space, \<open>b\<close> for two adjacent tokens \<open>a\<close>, \<open>b\<close> of the corpus, its frequency \<open>f\<close>
  is the number of adjacent occurrences of \<open>a\<close>, \<open>b\<close>, the round is carried out, and afterwards
  the vocabulary holds exactly \<open>f\<close> for the concatenated token \<open>a @ b\<close>, whatever it held for
  that token before; no other entry of the vocabulary changes.
\<close>

theorem merge_round_sets_pair_frequency:
  assumes "ht_inv (vocab st)"
    and "\<forall>ts \<in> set (all_tokens st). \<forall>t \<in> set ts. CHR '' '' \<notin> set t"
    and "get_best_pair (collect_pair_stats (all_tokens st)) = (Some best_pair, f)"
    and "length best_pair < 255"
  shows "\<exists>a b. (a, b) \<in> set (concat (map (\<lambda>ts. zip ts (tl ts)) (all_tokens st)))
           \<and> best_pair = a @ '' '' @ b
           \<and> f = int (count_list (concat (map (\<lambda>ts. zip ts (tl ts)) (all_tokens st))) (a, b))
           \<and> snd (merge_round st)
           \<and> merges (fst (merge_round st)) = merges st @ [best_pair]
           \<and> hash_search (vocab (fst (merge_round st))) (a @ b) = Some f
           \<and> (\<forall>k. k \<noteq> a @ b \<longrightarrow>
                 hash_search (vocab (fst (merge_round st))) k = hash_search (vocab st) k)"
proof -
  from best_pair_is_adjacent [OF assms(2,3,4)] obtain a b
    where ab: "(a, b) \<in> set (concat (map (\<lambda>ts. zip ts (tl ts)) (all_tokens st)))"
      and bp: "best_pair = a @ '' '' @ b" and nosp: "CHR '' '' \<notin> set a"
      and f: "f = int (count_list (concat (map (\<lambda>ts. zip ts (tl ts)) (all_tokens st))) (a, b))"
    by blast
  from merge_round_selected [OF assms(3) [unfolded bp] nosp assms(4) [unfolded bp]]
  have r: "merge_round st =
           (st\<lparr>merges := merges st @ [a @ '' '' @ b],
               vocab := store_merged (vocab st) (a @ b) f,
               all_tokens := map (\<lambda>tokens. merge_pair tokens (a @ '' '' @ b)) (all_tokens st)\<rparr>, True)" .
  have "snd (merge_round st)" by (simp add: r)
  moreover have "merges (fst (merge_round st)) = merges st @ [best_pair]" by (simp add: r bp)
  moreover have "hash_search (vocab (fst (merge_round st))) (a @ b) = Some f"
    by (simp add: r store_merged_search [OF assms(1)])
  moreover have "\<forall>k. k \<noteq> a @ b \<longrightarrow>
                 hash_search (vocab (fst (merge_round st))) k = hash_search (vocab st) k"
    by (simp add: r store_merged_search [OF assms(1)])
  ultimately show ?thesis using ab bp f by blast
qed

text \<open>
  Scenario A with a vocabulary that already holds 7 for \<open>[C][C]\<close>: the round selects
  \<open>[C] [C]\<close> with frequency 2, and the entry becomes 2, not 9.
\<close>

theorem merge_round_sets_pair_frequency_witness:
  "ht_inv (vocab \<lparr>vocab = \<lparr>ht_items = [[], [], [(''[C][C]'', 7), (''[N]'', 1)], [(''[C]'', 3)]],
                              ht_size = 4, ht_count = 3, load_threshold = HT_DEFAULT_LOAD_THRESHOLD\<rparr>,
                    all_tokens = [[''[C]'', ''[C]'', ''[C]'', ''[N]'']], merges = []\<rparr>)
   \<and> list_all (list_all (\<lambda>t. CHR '' '' \<notin> set t)) [[''[C]'', ''[C]'', ''[C]'', ''[N]'']]
   \<and> get_best_pair (collect_pair_stats [[''[C]'', ''[C]'', ''[C]'', ''[N]'']]) = (Some ''[C] [C]'', 2)
   \<and> length ''[C] [C]'' < 255
   \<and> hash_search \<lparr>ht_items = [[], [], [(''[C][C]'', 7), (''[N]'', 1)], [(''[C]'', 3)]],
                      ht_size = 4, ht_count = 3, load_threshold = HT_DEFAULT_LOAD_THRESHOLD\<rparr> ''[C][C]''
       = Some 7
   \<and> merge_round \<lparr>vocab = \<lparr>ht_items = [[], [], [(''[C][C]'', 7), (''[N]'', 1)], [(''[C]'', 3)]],
                              ht_size = 4, ht_count = 3, load_threshold = HT_DEFAULT_LOAD_THRESHOLD\<rparr>,
                    all_tokens = [[''[C]'', ''[C]'', ''[C]'', ''[N]'']], merges = []\<rparr>
       = (\<lparr>vocab = \<lparr>ht_items = [[], [], [(''[C][C]'', 2), (''[N]'', 1)], [(''[C]'', 3)]],
                      ht_size = 4, ht_count = 3, load_threshold = HT_DEFAULT_LOAD_THRESHOLD\<rparr>,
           all_tokens = [[''[C][C]'', ''[C]'', ''[N]'']], merges = [''[C] [C]'']\<rparr>, True)
   \<and> hash_search (vocab (fst (merge_round
         \<lparr>vocab = \<lparr>ht_items = [[], [], [(''[C][C]'', 7), (''[N]'', 1)], [(''[C]'', 3)]],
                     ht_size = 4, ht_count = 3, load_threshold = HT_DEFAULT_LOAD_THRESHOLD\<rparr>,
           all_tokens = [[''[C]'', ''[C]'', ''[C]'', ''[N]'']], merges = []\<rparr>))) (''[C]'' @ ''[C]'')
       = Some 2"
proof -
  let ?V = "\<lparr>ht_items = [[], [], [(''[C][C]'', 7), (''[N]'', 1)], [(''[C]'', 3)]],
              ht_size = 4, ht_count = 3, load_threshold = HT_DEFAULT_LOAD_THRESHOLD\<rparr>"
  let ?V' = "\<lparr>ht_items = [[], [], [(''[C][C]'', 2), (''[N]'', 1)], [(''[C]'', 3)]],
              ht_size = 4, ht_count = 3, load_threshold = HT_DEFAULT_LOAD_THRESHOLD\<rparr>"
  let ?st = "\<lparr>vocab = ?V, all_tokens = [[''[C]'', ''[C]'', ''[C]'', ''[N]'']], merges = []\<rparr>"
  let ?st' = "\<lparr>vocab = ?V', all_tokens = [[''[C][C]'', ''[C]'', ''[N]'']], merges = [''[C] [C]'']\<rparr>"
  have inv: "ht_inv (vocab ?st)" by (simp add: ht_inv_def scenario_hashes)
  have toks: "\<forall>ts \<in> set (all_tokens ?st). \<forall>t \<in> set ts. CHR '' '' \<notin> set t" by simp
  have best: "get_best_pair (collect_pair_stats (all_tokens ?st)) = (Some ''[C] [C]'', 2)"
    by (simp add: scenario_A_best)
  have len: "length ''[C] [C]'' < 255" by simp
  have prior: "hash_search ?V ''[C][C]'' = Some 7"
    by (simp add: hash_search_def scenario_hashes)
  have s: "store_merged ?V ''[C][C]'' 2 = ?V'"
    by (simp add: store_merged_def hash_search_def scenario_hashes ht_set_count_def)
  have r: "merge_round ?st = (?st', True)"
    by (simp add: merge_round_def scenario_A_best pair_first_def pair_second_def merged_token_def s
        merge_pair_def)
  from merge_round_sets_pair_frequency [OF inv toks best len] obtain a b
    where "(a, b) \<in> set (concat (map (\<lambda>ts. zip ts (tl ts)) (all_tokens ?st)))"
      and "''[C] [C]'' = a @ '' '' @ b"
      and "hash_search (vocab (fst (merge_round ?st))) (a @ b) = Some 2"
    by blast
  then have "hash_search (vocab (fst (merge_round ?st))) (''[C]'' @ ''[C]'') = Some 2"
    by auto
  with inv best len prior r show ?thesis by simp
qed

text \<open>
  Without the restriction the entry of the concatenated token is not set. The one line
  \<open>[C C][N]\<close> is segmented into \<open>[C C]\<close> and \<open>[N]\<close>; the round selects the key
  \<open>[C C] [N]\<close> with frequency 1 and splits it at its first space into \<open>[C\<close> and
  \<open>C] [N]\<close>: the vocabulary gets the entry \<open>[CC] [N]\<close>, and none for \<open>[C C][N]\<close>.
\<close>

lemma space_key_best:
  "get_best_pair (collect_pair_stats [[''[C C]'', ''[N]'']]) = (Some ''[C C] [N]'', 1)"
proof -
  let ?stats = "collect_pair_stats [[''[C C]'', ''[N]'']]"
  have inv: "ht_inv ?stats" by (rule collect_pair_stats_inv)
  have look: "\<And>k. hash_search ?stats k = (if k = ''[C C] [N]'' then Some 1 else None)"
    unfolding collect_pair_stats_search by (simp add: pair_key_def)
  then have m: "(''[C C] [N]'', 1) \<in> set (ht_entries ?stats)" by (simp add: ht_entries_search [OF inv])
  from get_best_pair_exists [OF this] obtain k c where best: "get_best_pair ?stats = (Some k, c)"
    by auto
  from get_best_pair_Some(1) [OF best] have "hash_search ?stats k = Some c"
    by (simp add: ht_entries_search [OF inv])
  with look [of k] have "k = ''[C C] [N]'' \<and> c = 1" by (auto split: if_splits)
  with best show ?thesis by simp
qed

lemma space_key_training:
  "\<exists>v. train_bpe_from_file False ''.'' (Some (''[C C][N]'' @ [NL])) 1 = Some (v, [''[C C] [N]''])
       \<and> hash_search v ''[C C][N]'' = None \<and> hash_search v ''[CC] [N]'' = Some 1
       \<and> hash_search v ''[C C]'' = Some 1 \<and> hash_search v ''[N]'' = Some 1"
proof -
  let ?ts = "[''[C C]'', ''[N]'']"
  define corpus where "corpus = ''[C C][N]'' @ [NL]"
  define budget :: int where "budget = 1"
  have lines: "corpus_lines corpus = [corpus]"
    by (simp add: corpus_def corpus_lines.simps fgets_def)
  define v0 where "v0 = foldl hash_insert_or_increment (ht_create HT_DEFAULT_SIZE) ?ts"
  have fp: "first_pass False [corpus] = (v0, 1)"
    unfolding v0_def
    by (simp add: corpus_def first_pass_def first_pass_line_def chomp_def c_string_def
        pre_tokenize_bracket_with_space)
  have sp: "second_pass False 1 [corpus] = [?ts]"
    by (simp add: corpus_def chomp_def c_string_def pre_tokenize_bracket_with_space)
  have inv0: "ht_inv v0" unfolding v0_def by (rule foldl_insert_inv [OF ht_create_inv])
  have s0: "hash_search v0 k = (if k = ''[C C]'' then Some 1 else if k = ''[N]'' then Some 1 else None)" for k
    unfolding v0_def foldl_insert_search [OF ht_create_inv] by (simp add: hash_search_create)
  define v1 where "v1 = store_merged v0 ''[CC] [N]'' 1"
  have r: "merge_rounds (nat budget) \<lparr>vocab = v0, all_tokens = [?ts], merges = []\<rparr>
             = \<lparr>vocab = v1, all_tokens = [?ts], merges = [''[C C] [N]'']\<rparr>"
    by (simp add: budget_def merge_round_def space_key_best pair_first_def pair_second_def
        merged_token_def merge_pair_def v1_def)
  have p: "\<not> PATH_MAX \<le> length (''.'' @ ''/vocab_'' @ show_int budget @ ''.txt'')"
    "\<not> PATH_MAX \<le> length (''.'' @ ''/vocab_'' @ show_int budget)"
    by (simp_all add: budget_def show_int_def show_nat.simps digit_char_def PATH_MAX_def)
  have b: "\<not> budget < 0" by (simp add: budget_def)
  have "train_bpe_from_file False ''.'' (Some corpus) budget = Some (v1, [''[C C] [N]''])"
    unfolding train_bpe_from_file_def lines Let_def fp sp prod.case r option.case
    using p b by simp
  moreover have "hash_search v1 ''[C C][N]'' = None" "hash_search v1 ''[CC] [N]'' = Some 1"
    "hash_search v1 ''[C C]'' = Some 1" "hash_search v1 ''[N]'' = Some 1"
    unfolding v1_def store_merged_search [OF inv0] s0 by simp_all
  ultimately show ?thesis unfolding corpus_def budget_def by blast
qed

theorem merge_round_other_token_counterexample:
  "snd (the (train_bpe_from_file False ''.'' (Some (''[C C][N]'' @ [NL])) 1)) = [''[C C] [N]'']
   \<and> get_best_pair (collect_pair_stats [[''[C C]'', ''[N]'']]) = (Some ''[C C] [N]'', 1)
   \<and> hash_search (fst (the (train_bpe_from_file False ''.'' (Some (''[C C][N]'' @ [NL])) 1)))
        (''[C C]'' @ ''[N]'') = None
   \<and> hash_search (fst (the (train_bpe_from_file False ''.'' (Some (''[C C][N]'' @ [NL])) 1)))
        ''[CC] [N]'' = Some 1"
proof -
  from space_key_training obtain v
    where "train_bpe_from_file False ''.'' (Some (''[C C][N]'' @ [NL])) 1 = Some (v, [''[C C] [N]''])"
      and "hash_search v ''[C C][N]'' = None" and "hash_search v ''[CC] [N]'' = Some 1"
    by blast
  then show ?thesis by (simp add: space_key_best)
qed

lemma first_pass_inv: "ht_inv (fst (first_pass fmt lines))"
proof -
  have "ht_inv (fst acc) \<Longrightarrow> ht_inv (fst (foldl (first_pass_line fmt) acc lines))" for acc
    by (induction lines arbitrary: acc) (simp_all add: first_pass_line_def foldl_insert_inv)
  from this [of "(ht_create HT_DEFAULT_SIZE, 0)"] show ?thesis
    by (simp add: first_pass_def ht_create_inv)
qed

text \<open>
  Scenario A from the corpus file to the result: one line \<open>[C][C][C][N]\<close> and a budget of
  one merge give the merge \<open>[C] [C]\<close> and the count 2 for \<open>[C][C]\<close>, beside the counts of the
  first pass.
\<close>

lemma scenario_A_training:
  "\<exists>v. train_bpe_from_file False ''.'' (Some (''[C][C][C][N]'' @ [NL])) 1 = Some (v, [''[C] [C]''])
       \<and> hash_search v ''[C][C]'' = Some 2 \<and> hash_search v ''[C]'' = Some 3
       \<and> hash_search v ''[N]'' = Some 1"
proof -
  let ?ts = "[''[C]'', ''[C]'', ''[C]'', ''[N]'']"
  define corpus where "corpus = ''[C][C][C][N]'' @ [NL]"
  define budget :: int where "budget = 1"
  have lines: "corpus_lines corpus = [corpus]"
    by (simp add: corpus_def corpus_lines.simps fgets_def)
  define v0 where "v0 = foldl hash_insert_or_increment (ht_create HT_DEFAULT_SIZE) ?ts"
  have fp: "first_pass False [corpus] = (v0, 1)"
    unfolding v0_def
    by (simp add: corpus_def first_pass_def first_pass_line_def chomp_def c_string_def
        pre_tokenize_scenario_A)
  have sp: "second_pass False 1 [corpus] = [?ts]"
    by (simp add: corpus_def chomp_def c_string_def pre_tokenize_scenario_A)
  have inv0: "ht_inv v0" unfolding v0_def by (rule foldl_insert_inv [OF ht_create_inv])
  have s0: "hash_search v0 k = (if k = ''[C]'' then Some 3 else if k = ''[N]'' then Some 1 else None)" for k
    unfolding v0_def foldl_insert_search [OF ht_create_inv] by (simp add: hash_search_create)
  define v1 where "v1 = store_merged v0 ''[C][C]'' 2"
  have r: "merge_rounds (nat budget) \<lparr>vocab = v0, all_tokens = [?ts], merges = []\<rparr>
             = \<lparr>vocab = v1, all_tokens = [[''[C][C]'', ''[C]'', ''[N]'']], merges = [''[C] [C]'']\<rparr>"
    by (simp add: budget_def merge_round_def scenario_A_best pair_first_def pair_second_def
        merged_token_def merge_pair_def v1_def)
  have p: "\<not> PATH_MAX \<le> length (''.'' @ ''/vocab_'' @ show_int budget @ ''.txt'')"
    "\<not> PATH_MAX \<le> length (''.'' @ ''/vocab_'' @ show_int budget)"
    by (simp_all add: budget_def show_int_def show_nat.simps digit_char_def PATH_MAX_def)
  have b: "\<not> budget < 0" by (simp add: budget_def)
  have "train_bpe_from_file False ''.'' (Some corpus) budget = Some (v1, [''[C] [C]''])"
    unfolding train_bpe_from_file_def lines Let_def fp sp prod.case r option.case
    using p b by simp
  moreover have "hash_search v1 ''[C][C]'' = Some 2" "hash_search v1 ''[C]'' = Some 3"
    "hash_search v1 ''[N]'' = Some 1"
    unfolding v1_def store_merged_search [OF inv0] s0 by simp_all
  ultimately show ?thesis unfolding corpus_def budget_def by blast
qed

subsection \<open>A line with a NUL byte\<close>

text \<open>
  Of the line \<open>[..\<close>, NUL, \<open>]\<close> the code sees \<open>[..\<close>: the bracket is not closed and is
  passed over, the two dots are tokens, and one merge is made.
\<close>

lemma nul_best: "get_best_pair (collect_pair_stats [[''.'', ''.'']]) = (Some ''. .'', 1)"
proof -
  let ?stats = "collect_pair_stats [[''.'', ''.'']]"
  have inv: "ht_inv ?stats" by (rule collect_pair_stats_inv)
  have look: "\<And>k. hash_search ?stats k = (if k = ''. .'' then Some 1 else None)"
    unfolding collect_pair_stats_search by (simp add: pair_key_def)
  then have m: "(''. .'', 1) \<in> set (ht_entries ?stats)" by (simp add: ht_entries_search [OF inv])
  from get_best_pair_exists [OF this] obtain k c where best: "get_best_pair ?stats = (Some k, c)"
    by auto
  from get_best_pair_Some(1) [OF best] have "hash_search ?stats k = Some c"
    by (simp add: ht_entries_search [OF inv])
  with look [of k] have "k = ''. .'' \<and> c = 1" by (auto split: if_splits)
  with best show ?thesis by simp
qed

lemma line_with_NUL:
  "pre_tokenize False (chomp (c_string (''[..'' @ [CHR 0x00] @ '']'' @ [NL]))) = [''.'', ''.'']"
  by (simp add: c_string_def chomp_def pre_tokenize_def tokenize_loop.simps match_here_def
      selfies_match_def bracket_match_def)

lemma training_on_line_with_NUL:
  "\<exists>v. train_bpe_from_file False ''.'' (Some (''[..'' @ [CHR 0x00] @ '']'' @ [NL])) 1
          = Some (v, [''. .''])
       \<and> hash_search v ''..'' = Some 1 \<and> hash_search v ''.'' = Some 2"
proof -
  let ?ts = "[''.'', ''.'']"
  define corpus where "corpus = ''[..'' @ [CHR 0x00] @ '']'' @ [NL]"
  define budget :: int where "budget = 1"
  have lines: "corpus_lines corpus = [corpus]"
    by (simp add: corpus_def corpus_lines.simps fgets_def)
  have tok: "pre_tokenize False (chomp (c_string corpus)) = ?ts"
    unfolding corpus_def by (rule line_with_NUL)
  then have ne: "chomp (c_string corpus) \<noteq> []"
    by (auto simp: pre_tokenize_def tokenize_loop.simps)
  define v0 where "v0 = foldl hash_insert_or_increment (ht_create HT_DEFAULT_SIZE) ?ts"
  have fp: "first_pass False [corpus] = (v0, 1)"
    unfolding v0_def by (simp add: first_pass_def first_pass_line_def tok ne)
  have sp: "second_pass False 1 [corpus] = [?ts]"
    by (simp add: tok ne)
  have inv0: "ht_inv v0" unfolding v0_def by (rule foldl_insert_inv [OF ht_create_inv])
  have s0: "hash_search v0 k = (if k = ''.'' then Some 2 else None)" for k
    unfolding v0_def foldl_insert_search [OF ht_create_inv] by (simp add: hash_search_create)
  define v1 where "v1 = store_merged v0 ''..'' 1"
  have r: "merge_rounds (nat budget) \<lparr>vocab = v0, all_tokens = [?ts], merges = []\<rparr>
             = \<lparr>vocab = v1, all_tokens = [[''..'']], merges = [''. .'']\<rparr>"
    by (simp add: budget_def merge_round_def nul_best pair_first_def pair_second_def
        merged_token_def merge_pair_def v1_def)
  have p: "\<not> PATH_MAX \<le> length (''.'' @ ''/vocab_'' @ show_int budget @ ''.txt'')"
    "\<not> PATH_MAX \<le> length (''.'' @ ''/vocab_'' @ show_int budget)"
    by (simp_all add: budget_def show_int_def show_nat.simps digit_char_def PATH_MAX_def)
  have b: "\<not> budget < 0" by (simp add: budget_def)
  have "train_bpe_from_file False ''.'' (Some corpus) budget = Some (v1, [''. .''])"
    unfolding train_bpe_from_file_def lines Let_def fp sp prod.case r option.case
    using p b by simp
  moreover have "hash_search v1 ''..'' = Some 1" "hash_search v1 ''.'' = Some 2"
    unfolding v1_def store_merged_search [OF inv0] s0 by simp_all
  ultimately show ?thesis unfolding corpus_def budget_def by blast
qed

section \<open>The vocabulary serializer\<close>

subsection \<open>Scanning\<close>

text \<open>\<open>isspace\<close> in the C locale: space, \<open>\t\<close>, \<open>\n\<close>, \<open>\v\<close>, \<open>\f\<close>, \<open>\r\<close>.\<close>

definition isspace :: "char \<Rightarrow> bool" where
  "isspace c \<longleftrightarrow> c \<in> set [CHR '' '', TAB, NL, CHR 0x0B, CHR 0x0C, CHR 0x0D]"

definition skip_space :: "string \<Rightarrow> string" where
  "skip_space s = dropWhile isspace s"

definition digits_value :: "string \<Rightarrow> nat" where
  "digits_value ds = foldl (\<lambda>v c. 10 * v + (of_char c - 48)) 0 ds"

text \<open>
  The conversion \<open>%d\<close> of \<open>fscanf\<close>: white space is skipped, then an optional sign and at
  least one digit are read; without a digit the conversion fails. The value and the unread
  rest. (A value outside \<open>int\<close> is undefined in C and is not modelled.)
\<close>

definition scan_int :: "string \<Rightarrow> (int \<times> string) option" where
  "scan_int s =
     (let s1 = skip_space s;
          neg = (take 1 s1 = ''-'');
          s2 = (if take 1 s1 = ''-'' \<or> take 1 s1 = ''+'' then drop 1 s1 else s1);
          ds = takeWhile is_digit s2
      in if ds = [] then None
         else Some (if neg then - int (digits_value ds) else int (digits_value ds),
                    drop (length ds) s2))"

text \<open>\<open>atoi\<close>: like \<open>%d\<close>, but 0 when there is no digit.\<close>

definition atoi :: "string \<Rightarrow> int" where
  "atoi s = (case scan_int s of None \<Rightarrow> 0 | Some (v, rest) \<Rightarrow> v)"

subsection \<open>The text format\<close>

definition vocabulary_marker :: string where
  "vocabulary_marker = ''---VOCABULARY---'' @ [NL]"

definition entry_line :: "Ht_item \<Rightarrow> string" where
  "entry_line item = fst item @ [TAB] @ show_int (snd item) @ [NL]"

text \<open>
  \<open>save_vocabulary\<close>: what is written to the file. The array \<open>merges\<close> with its length
  \<open>merge_count\<close> is the list \<open>ms\<close>.
\<close>

definition save_vocabulary :: "HashTable \<Rightarrow> string list \<Rightarrow> string" where
  "save_vocabulary v ms =
     show_int (int (length ms)) @ [NL]
     @ concat (map (\<lambda>m. m @ [NL]) ms)
     @ vocabulary_marker
     @ concat (map entry_line (ht_entries v))"

fun read_merges :: "nat \<Rightarrow> string \<Rightarrow> (string list \<times> string) option" where
  "read_merges 0 s = Some ([], s)"
| "read_merges (Suc n) s =
     (case fgets 256 s of
        None \<Rightarrow> None
      | Some (line, rest) \<Rightarrow>
          (case read_merges n rest of
             None \<Rightarrow> None
           | Some (ms, rest') \<Rightarrow> Some (chomp line # ms, rest')))"

function find_marker :: "string \<Rightarrow> string" where
  "find_marker s =
     (case fgets 256 s of
        None \<Rightarrow> s
      | Some (line, rest) \<Rightarrow> if line = vocabulary_marker then rest else find_marker rest)"
  by pat_completeness auto
termination
proof (relation "measure length")
  show "wf (measure length)" by simp
next
  fix s :: string and x2 line rest
  assume "fgets 256 s = Some x2" and "(line, rest) = x2"
  then have "fgets 256 s = Some (line, rest)" by simp
  from fgets_shorter [OF this] show "(rest, s) \<in> measure length" by simp
qed

declare find_marker.simps [simp del]

text \<open>
  \<open>fscanf(file, "%255s\t%d\n", token, &count) == 2\<close>: a word of at most 255 characters
  that are not white space, white space, an integer, white space.
\<close>

definition scan_entry :: "string \<Rightarrow> (Ht_item \<times> string) option" where
  "scan_entry s =
     (let s1 = skip_space s;
          token = take 255 (takeWhile (\<lambda>c. \<not> isspace c) s1)
      in if token = [] then None
         else (case scan_int (skip_space (drop (length token) s1)) of
                 None \<Rightarrow> None
               | Some (cnt, s2) \<Rightarrow> Some ((token, cnt), skip_space s2)))"

text \<open>An entry read from the file: the count of a token already present is overwritten,
  a new token is linked in (the field \<open>count\<close> of the table is not touched).\<close>

definition load_entry :: "HashTable \<Rightarrow> Ht_item \<Rightarrow> HashTable" where
  "load_entry v item =
     (case hash_search v (fst item) of
        Some c \<Rightarrow> ht_set_count v (fst item) (snd item)
      | None \<Rightarrow> ht_push v (fst item) (snd item))"

lemma length_skip_space: "length (skip_space s) \<le> length s"
  by (simp add: skip_space_def length_dropWhile_le)

lemma scan_int_shorter: "scan_int s = Some (v, rest) \<Longrightarrow> length rest < length s"
proof -
  assume a: "scan_int s = Some (v, rest)"
  define s1 where "s1 = skip_space s"
  define s2 where "s2 = (if take 1 s1 = ''-'' \<or> take 1 s1 = ''+'' then drop 1 s1 else s1)"
  define ds where "ds = takeWhile is_digit s2"
  from a have ne: "ds \<noteq> []" and r: "rest = drop (length ds) s2"
    by (auto simp: scan_int_def Let_def s1_def s2_def ds_def split: if_splits)
  have "length ds \<le> length s2" unfolding ds_def by (rule length_takeWhile_le)
  moreover from ne have "0 < length ds" by simp
  ultimately have "length rest < length s2" unfolding r length_drop by linarith
  moreover have "length s2 \<le> length s1" by (simp add: s2_def)
  ultimately show ?thesis using length_skip_space [of s] by (simp add: s1_def)
qed

lemma scan_entry_shorter: "scan_entry s = Some (item, rest) \<Longrightarrow> length rest < length s"
proof -
  assume a: "scan_entry s = Some (item, rest)"
  let ?s1 = "skip_space s"
  let ?tok = "take 255 (takeWhile (\<lambda>c. \<not> isspace c) ?s1)"
  from a obtain cnt s2 where i: "scan_int (skip_space (drop (length ?tok) ?s1)) = Some (cnt, s2)"
    and r: "rest = skip_space s2"
    by (auto simp: scan_entry_def Let_def split: if_splits option.splits)
  from scan_int_shorter [OF i] have "length s2 < length (skip_space (drop (length ?tok) ?s1))" .
  also have "\<dots> \<le> length (drop (length ?tok) ?s1)" by (rule length_skip_space)
  also have "\<dots> \<le> length ?s1" by simp
  also have "\<dots> \<le> length s" by (rule length_skip_space)
  finally show ?thesis using r length_skip_space [of s2] by simp
qed

function read_entries :: "HashTable \<Rightarrow> string \<Rightarrow> HashTable" where
  "read_entries v s =
     (case scan_entry s of
        None \<Rightarrow> v
      | Some (item, rest) \<Rightarrow> read_entries (load_entry v item) rest)"
  by pat_completeness auto
termination
proof (relation "measure (\<lambda>(v, s). length s)")
  show "wf (measure (\<lambda>(v, s). length s))" by simp
next
  fix v :: HashTable and s :: string and x2 item rest
  assume "scan_entry s = Some x2" and "(item, rest) = x2"
  then have "scan_entry s = Some (item, rest)" by simp
  from scan_entry_shorter [OF this]
  show "((load_entry v item, rest), (v, s)) \<in> measure (\<lambda>(v, s). length s)" by simp
qed

declare read_entries.simps [simp del]

text \<open>
  \<open>load_vocabulary\<close> on the content of the file (\<open>None\<close>: it cannot be opened). NULL when
  the merge count cannot be read, when the array of merges cannot be allocated (a negative
  count converts to a size no \<open>malloc\<close> grants; for the count 0 \<open>malloc(0)\<close> returns a
  pointer, as in glibc) and when a merge line is missing.
\<close>

definition load_vocabulary :: "string option \<Rightarrow> (HashTable \<times> string list) option" where
  "load_vocabulary content =
     (case content of
        None \<Rightarrow> None
      | Some s \<Rightarrow>
          (case scan_int s of
             None \<Rightarrow> None
           | Some (merge_count, s1) \<Rightarrow>
               if merge_count < 0 then None
               else (case read_merges (nat merge_count) (skip_space s1) of
                       None \<Rightarrow> None
                     | Some (ms, s2) \<Rightarrow>
                         Some (read_entries (ht_create 100) (find_marker s2), ms))))"

text \<open>
  C3. A file without the \<open>---VOCABULARY---\<close> line: the search for the marker runs to the end
  of the file, no entry is read, and the loader returns an empty vocabulary together with
  the merges it has read; it does not return NULL.
\<close>

theorem load_vocabulary_without_marker:
  "load_vocabulary (Some (''1'' @ [NL] @ ''[C] [C]'' @ [NL])) = Some (ht_create 100, [''[C] [C]''])
   \<and> count_unique_tokens (ht_create 100) = 0"
  by (simp add: load_vocabulary_def scan_int_def skip_space_def isspace_def is_digit_def digits_value_def
      fgets_def chomp_def find_marker.simps read_entries.simps scan_entry_def vocabulary_marker_def
      count_unique_tokens_def ht_create_entries)

text \<open>No path of the loader depends on the marker: once the merge count and the merges are
  read, a table is returned.\<close>

lemma load_vocabulary_after_merges:
  "scan_int s = Some (merge_count, s1) \<Longrightarrow> 0 \<le> merge_count \<Longrightarrow>
   read_merges (nat merge_count) (skip_space s1) = Some (ms, s2) \<Longrightarrow>
   load_vocabulary (Some s) = Some (read_entries (ht_create 100) (find_marker s2), ms)"
  by (simp add: load_vocabulary_def)

lemma find_marker_absent: "fgets 256 s = None \<Longrightarrow> find_marker s = s"
  by (simp add: find_marker.simps)

subsection \<open>Printing and scanning integers\<close>

lemma digit_char_cases:
  "d < 10 \<Longrightarrow> is_digit (digit_char d) \<and> of_char (digit_char d) - 48 = d \<and> \<not> isspace (digit_char d)"
proof -
  assume "d < 10"
  then have "d \<in> {0, 1, 2, 3, 4, 5, 6, 7, 8, 9}" by auto
  then show ?thesis
    by (auto simp: digit_char_def is_digit_def isspace_def)
qed

lemma show_nat_digits: "c \<in> set (show_nat n) \<Longrightarrow> is_digit c"
proof (induction n arbitrary: c rule: show_nat.induct)
  case (1 n)
  show ?case
  proof (cases "n < 10")
    case True
    with "1.prems" show ?thesis by (simp add: show_nat.simps [of n] digit_char_cases)
  next
    case False
    with "1.prems" have "c \<in> set (show_nat (n div 10)) \<or> c = digit_char (n mod 10)"
      by (auto simp: show_nat.simps [of n])
    with "1.IH" [OF False] show ?thesis by (auto simp: digit_char_cases)
  qed
qed

lemma show_nat_nonempty: "show_nat n \<noteq> []"
  by (simp add: show_nat.simps [of n])

lemma digits_value_snoc: "digits_value (ds @ [c]) = 10 * digits_value ds + (of_char c - 48)"
  by (simp add: digits_value_def)

lemma digits_value_show_nat: "digits_value (show_nat n) = n"
proof (induction n rule: show_nat.induct)
  case (1 n)
  show ?case
  proof (cases "n < 10")
    case True
    then show ?thesis by (simp add: show_nat.simps [of n] digits_value_def digit_char_cases)
  next
    case False
    with "1.IH" show ?thesis
      by (simp add: show_nat.simps [of n] digits_value_snoc digit_char_cases)
  qed
qed

lemma takeWhile_digits:
  assumes "rest = [] \<or> \<not> is_digit (hd rest)"
  shows "takeWhile is_digit (show_nat n @ rest) = show_nat n"
proof -
  have "\<forall>c \<in> set (show_nat n). is_digit c" by (simp add: show_nat_digits)
  then have "takeWhile is_digit (show_nat n @ rest) = show_nat n @ takeWhile is_digit rest"
    by (simp add: takeWhile_append2)
  moreover from assms have "takeWhile is_digit rest = []" by (cases rest) auto
  ultimately show ?thesis by simp
qed

lemma is_digit_not_space: "is_digit c \<Longrightarrow> \<not> isspace c"
  by (auto simp: is_digit_def isspace_def)

lemma skip_space_nonspace: "s \<noteq> [] \<Longrightarrow> \<not> isspace (hd s) \<Longrightarrow> skip_space s = s"
  by (cases s) (simp_all add: skip_space_def)

lemma hd_show_nat: "is_digit (hd (show_nat n))"
  using show_nat_nonempty [of n] show_nat_digits [of "hd (show_nat n)" n] by simp

lemma scan_int_show_nat:
  assumes "rest = [] \<or> \<not> is_digit (hd rest)"
  shows "scan_int (show_nat n @ rest) = Some (int n, rest)"
proof -
  obtain d ds where sn: "show_nat n = d # ds" using show_nat_nonempty [of n] by (cases "show_nat n") auto
  with hd_show_nat [of n] have d: "is_digit d" by simp
  then have "\<not> isspace d" by (rule is_digit_not_space)
  then have sk: "skip_space (show_nat n @ rest) = show_nat n @ rest"
    by (simp add: sn skip_space_def)
  from d have nosign: "d \<noteq> CHR ''-''" "d \<noteq> CHR ''+''" by (auto simp: is_digit_def)
  have tw: "takeWhile is_digit (show_nat n @ rest) = show_nat n" using assms by (rule takeWhile_digits)
  show ?thesis
    unfolding scan_int_def sk Let_def
    using nosign tw show_nat_nonempty [of n] by (simp add: sn [symmetric] digits_value_show_nat) (simp add: sn)
qed

lemma scan_int_show_int:
  assumes "rest = [] \<or> \<not> is_digit (hd rest)"
  shows "scan_int (show_int i @ rest) = Some (i, rest)"
proof (cases "i < 0")
  case False
  with scan_int_show_nat [OF assms, of "nat i"] show ?thesis by (simp add: show_int_def)
next
  case True
  have sk: "skip_space (CHR ''-'' # show_nat (nat (- i)) @ rest) = CHR ''-'' # show_nat (nat (- i)) @ rest"
    by (simp add: skip_space_def isspace_def)
  have tw: "takeWhile is_digit (show_nat (nat (- i)) @ rest) = show_nat (nat (- i))"
    using assms by (rule takeWhile_digits)
  from True show ?thesis
    unfolding scan_int_def show_int_def Let_def
    by (simp add: sk tw show_nat_nonempty digits_value_show_nat)
qed

lemma show_int_nonempty: "show_int i \<noteq> []"
  by (simp add: show_int_def show_nat_nonempty)

lemma hd_show_int_not_space: "\<not> isspace (hd (show_int i))"
  using hd_show_nat [of "nat i"] by (auto simp: show_int_def isspace_def dest: is_digit_not_space)


subsection \<open>Reading back the text format\<close>

lemma fgets_chars_line:
  "NL \<notin> set m \<Longrightarrow> length m < k \<Longrightarrow> fgets_chars k (m @ NL # rest) = (m @ [NL], rest)"
proof (induction m arbitrary: k)
  case Nil
  then show ?case by simp
next
  case (Cons c m)
  from Cons.prems have "fgets_chars (k - 1) (m @ NL # rest) = (m @ [NL], rest)"
    by (intro Cons.IH) auto
  with Cons.prems show ?case by auto
qed

lemma fgets_line:
  assumes "NL \<notin> set m" and "length m < 255"
  shows "fgets 256 (m @ NL # rest) = Some (m @ [NL], rest)"
  using fgets_chars_line [OF assms(1), of 255 rest] assms(2) by (simp add: fgets_def)

lemma chomp_line: "chomp (m @ [NL]) = m"
  by (simp add: chomp_def)

lemma read_merges_lines:
  assumes "\<forall>m \<in> set ms. NL \<notin> set m \<and> length m < 255"
  shows "read_merges (length ms) (concat (map (\<lambda>m. m @ [NL]) ms) @ rest) = Some (ms, rest)"
  using assms
proof (induction ms)
  case Nil
  then show ?case by simp
next
  case (Cons m ms)
  from Cons.prems have "fgets 256 (m @ NL # concat (map (\<lambda>m. m @ [NL]) ms) @ rest)
      = Some (m @ [NL], concat (map (\<lambda>m. m @ [NL]) ms) @ rest)"
    by (intro fgets_line) auto
  with Cons show ?case by (simp add: chomp_line)
qed

lemma find_marker_here: "find_marker (vocabulary_marker @ rest) = rest"
proof -
  have "fgets 256 (''---VOCABULARY---'' @ NL # rest) = Some (''---VOCABULARY---'' @ [NL], rest)"
    by (rule fgets_line) simp_all
  then show ?thesis
    by (subst find_marker.simps) (simp add: vocabulary_marker_def)
qed

definition text_token :: "string \<Rightarrow> bool" where
  "text_token k \<longleftrightarrow> k \<noteq> [] \<and> length k \<le> 255 \<and> list_all (\<lambda>c. \<not> isspace c) k"

lemma skip_space_entry_line: "text_token (fst item) \<Longrightarrow> skip_space (entry_line item @ rest) = entry_line item @ rest"
  by (cases "fst item") (simp_all add: text_token_def entry_line_def skip_space_def)

lemma skip_space_entries:
  "list_all (\<lambda>item. text_token (fst item)) es \<Longrightarrow>
   skip_space (concat (map entry_line es)) = concat (map entry_line es)"
proof (cases es)
  case Nil
  then show ?thesis by (simp add: skip_space_def)
next
  case (Cons e es')
  assume "list_all (\<lambda>item. text_token (fst item)) es"
  with Cons have "text_token (fst e)" by simp
  from skip_space_entry_line [OF this, of "concat (map entry_line es')"] Cons show ?thesis by simp
qed

lemma scan_entry_line:
  assumes "text_token (fst item)"
  shows "scan_entry (entry_line item @ rest) = Some (item, skip_space rest)"
proof -
  obtain k c where item: "item = (k, c)" by (cases item)
  from assms item have k: "k \<noteq> []" "length k \<le> 255" "\<forall>x \<in> set k. \<not> isspace x"
    by (auto simp: text_token_def list_all_iff)
  let ?tail = "TAB # show_int c @ NL # rest"
  have line: "entry_line item @ rest = k @ ?tail" by (simp add: entry_line_def item)
  have sk: "skip_space (k @ ?tail) = k @ ?tail"
    using k(1,3) by (cases k) (simp_all add: skip_space_def)
  have "takeWhile (\<lambda>x. \<not> isspace x) (k @ ?tail) = k"
    using k(3) by (simp add: takeWhile_append2 isspace_def)
  then have tok: "take 255 (takeWhile (\<lambda>x. \<not> isspace x) (k @ ?tail)) = k" using k(2) by simp
  have "skip_space ?tail = show_int c @ NL # rest"
    using skip_space_nonspace [of "show_int c @ NL # rest"] show_int_nonempty [of c]
      hd_show_int_not_space [of c]
    by (simp add: skip_space_def isspace_def)
  moreover have "scan_int (show_int c @ NL # rest) = Some (c, NL # rest)"
    by (rule scan_int_show_int) (simp add: is_digit_def)
  moreover have "skip_space (NL # rest) = skip_space rest" by (simp add: skip_space_def isspace_def)
  ultimately show ?thesis
    unfolding line scan_entry_def sk Let_def tok using k(1) by (simp add: item)
qed

lemma read_entries_lines:
  "list_all (\<lambda>item. text_token (fst item)) es \<Longrightarrow>
   read_entries v (concat (map entry_line es)) = foldl load_entry v es"
proof (induction es arbitrary: v)
  case Nil
  show ?case by (subst read_entries.simps) (simp add: scan_entry_def skip_space_def)
next
  case (Cons e es)
  from Cons.prems have e: "text_token (fst e)" and es: "list_all (\<lambda>item. text_token (fst item)) es"
    by simp_all
  have "scan_entry (entry_line e @ concat (map entry_line es)) = Some (e, concat (map entry_line es))"
    using scan_entry_line [OF e] skip_space_entries [OF es] by simp
  then show ?case
    by (subst read_entries.simps) (simp add: Cons.IH [OF es])
qed

subsection \<open>The table built by the loader\<close>

lemma load_entry_inv: "ht_inv v \<Longrightarrow> ht_inv (load_entry v item)"
  by (auto simp: load_entry_def ht_set_count_inv ht_push_inv split: option.splits)

lemma load_entry_search:
  assumes "ht_inv v"
  shows "hash_search (load_entry v item) k = (if k = fst item then Some (snd item) else hash_search v k)"
proof -
  from assms have pos: "0 < ht_size v" and len: "length (ht_items v) = ht_size v"
    by (auto simp: ht_inv_iff)
  show ?thesis
    by (cases "hash_search v (fst item)")
      (simp_all add: load_entry_def hash_search_push [OF pos len] hash_search_set_count [OF pos len])
qed

lemma foldl_load_entry_inv: "ht_inv v \<Longrightarrow> ht_inv (foldl load_entry v es)"
  by (induction es arbitrary: v) (simp_all add: load_entry_inv)

lemma foldl_load_entry_search:
  "ht_inv v \<Longrightarrow> distinct (map fst es) \<Longrightarrow>
   hash_search (foldl load_entry v es) k = (case map_of es k of None \<Rightarrow> hash_search v k | Some c \<Rightarrow> Some c)"
proof (induction es arbitrary: v)
  case Nil
  then show ?case by simp
next
  case (Cons e es)
  from Cons.prems have d: "distinct (map fst es)" and n: "fst e \<notin> fst ` set es" by auto
  from n have "map_of es (fst e) = None" by (simp add: map_of_eq_None_iff)
  with Cons.IH [OF load_entry_inv [OF Cons.prems(1)] d, of e]
  show ?case
    by (cases e) (auto simp: load_entry_search [OF Cons.prems(1)] split: option.splits)
qed

lemma loaded_table:
  assumes "ht_inv v" and "v' = foldl load_entry (ht_create n) (ht_entries v)"
  shows "ht_inv v'" and "\<And>k. hash_search v' k = hash_search v k"
    and "set (ht_entries v') = set (ht_entries v)"
proof -
  from assms(1) have d: "distinct (map fst (ht_entries v))"
    by (auto simp: ht_inv_iff ht_entries_concat)
  show inv': "ht_inv v'" unfolding assms(2) by (rule foldl_load_entry_inv [OF ht_create_inv])
  show s: "\<And>k. hash_search v' k = hash_search v k"
    unfolding assms(2) foldl_load_entry_search [OF ht_create_inv d]
    by (simp add: hash_search_create hash_search_map_of [OF assms(1)] split: option.splits)
  show "set (ht_entries v') = set (ht_entries v)"
  proof (rule set_eqI)
    fix x :: Ht_item
    obtain k c where x: "x = (k, c)" by (cases x)
    show "x \<in> set (ht_entries v') \<longleftrightarrow> x \<in> set (ht_entries v)"
      unfolding x ht_entries_search [OF inv'] ht_entries_search [OF assms(1)] s ..
  qed
qed


lemma text_roundtrip:
  assumes "list_all (\<lambda>item. text_token (fst item)) (ht_entries v)"
    and "\<forall>m \<in> set ms. NL \<notin> set m \<and> length m < 255"
    and "ms = [] \<or> (hd ms \<noteq> [] \<and> \<not> isspace (hd (hd ms)))"
  shows "load_vocabulary (Some (save_vocabulary v ms))
           = Some (foldl load_entry (ht_create 100) (ht_entries v), ms)"
proof -
  let ?lines = "concat (map (\<lambda>m. m @ [NL]) ms)"
  let ?entries = "concat (map entry_line (ht_entries v))"
  let ?X = "?lines @ vocabulary_marker @ ?entries"
  have content: "save_vocabulary v ms = show_int (int (length ms)) @ NL # ?X"
    by (simp add: save_vocabulary_def)
  have count: "scan_int (show_int (int (length ms)) @ NL # ?X) = Some (int (length ms), NL # ?X)"
    by (rule scan_int_show_int) (simp add: is_digit_def)
  have "?X \<noteq> [] \<and> \<not> isspace (hd ?X)"
  proof (cases ms)
    case Nil
    then show ?thesis by (simp add: vocabulary_marker_def isspace_def)
  next
    case (Cons m ms')
    with assms(3) show ?thesis by (cases m) auto
  qed
  then have "skip_space ?X = ?X" by (simp add: skip_space_nonspace)
  then have skip: "skip_space (NL # ?X) = ?X" by (simp add: skip_space_def isspace_def)
  have merges: "read_merges (length ms) ?X = Some (ms, vocabulary_marker @ ?entries)"
    using assms(2) by (rule read_merges_lines)
  show ?thesis
    unfolding load_vocabulary_def content
    by (simp add: count skip merges find_marker_here read_entries_lines [OF assms(1)])
qed


text \<open>
  C4, as the code has it. The text format is a white-space separated format read back with
  fixed 256-byte buffers: for a table that satisfies the invariant and whose tokens are
  non-empty, at most 255 bytes long and free of white space, and for merges shorter than 255
  bytes without a newline, the first of which does not start with white space, loading the
  saved file returns the same merge list and a table with the same (token, count) pairs.
\<close>

theorem save_load_text_roundtrip:
  assumes "ht_inv v"
    and "\<forall>item \<in> set (ht_entries v).
           fst item \<noteq> [] \<and> length (fst item) \<le> 255 \<and> (\<forall>c \<in> set (fst item). \<not> isspace c)"
    and "\<forall>m \<in> set ms. NL \<notin> set m \<and> length m < 255"
    and "ms = [] \<or> (hd ms \<noteq> [] \<and> \<not> isspace (hd (hd ms)))"
  shows "\<exists>v'. load_vocabulary (Some (save_vocabulary v ms)) = Some (v', ms)
              \<and> set (ht_entries v') = set (ht_entries v)
              \<and> (\<forall>k. hash_search v' k = hash_search v k)"
proof -
  from assms(2) have "list_all (\<lambda>item. text_token (fst item)) (ht_entries v)"
    by (simp add: list_all_iff text_token_def)
  from text_roundtrip [OF this assms(3,4)] loaded_table(2,3) [OF assms(1) refl, of 100]
  show ?thesis by simp
qed

theorem save_load_text_roundtrip_witness:
  "ht_inv \<lparr>ht_items = [[], [], [(''[N]'', 1)], [(''[C]'', 3)]], ht_size = 4, ht_count = 2,
            load_threshold = HT_DEFAULT_LOAD_THRESHOLD\<rparr>
   \<and> save_vocabulary \<lparr>ht_items = [[], [], [(''[N]'', 1)], [(''[C]'', 3)]], ht_size = 4, ht_count = 2,
                        load_threshold = HT_DEFAULT_LOAD_THRESHOLD\<rparr> [''[C] [C]'']
       = ''1'' @ [NL] @ ''[C] [C]'' @ [NL] @ ''---VOCABULARY---'' @ [NL]
         @ ''[N]'' @ [TAB] @ ''1'' @ [NL] @ ''[C]'' @ [TAB] @ ''3'' @ [NL]
   \<and> (\<exists>v'. load_vocabulary (Some (save_vocabulary
                \<lparr>ht_items = [[], [], [(''[N]'', 1)], [(''[C]'', 3)]], ht_size = 4, ht_count = 2,
                  load_threshold = HT_DEFAULT_LOAD_THRESHOLD\<rparr> [''[C] [C]''])) = Some (v', [''[C] [C]''])
          \<and> set (ht_entries v') = {(''[N]'', 1), (''[C]'', 3)}
          \<and> hash_search v' ''[C]'' = Some 3)"
proof -
  let ?V = "\<lparr>ht_items = [[], [], [(''[N]'', 1)], [(''[C]'', 3)]], ht_size = 4, ht_count = 2,
              load_threshold = HT_DEFAULT_LOAD_THRESHOLD\<rparr>"
  have inv: "ht_inv ?V" by (simp add: ht_inv_def scenario_hashes)
  have e: "ht_entries ?V = [(''[N]'', 1), (''[C]'', 3)]"
    by (simp add: ht_entries_def upt_rec)
  have t: "\<forall>item \<in> set (ht_entries ?V).
           fst item \<noteq> [] \<and> length (fst item) \<le> 255 \<and> (\<forall>c \<in> set (fst item). \<not> isspace c)"
    unfolding e by (simp add: isspace_def)
  have m: "\<forall>m \<in> set [''[C] [C]'']. NL \<notin> set m \<and> length m < 255" by simp
  have f: "[''[C] [C]''] = [] \<or> (hd [''[C] [C]''] \<noteq> [] \<and> \<not> isspace (hd (hd [''[C] [C]''])))"
    by (simp add: isspace_def)
  have s: "hash_search ?V ''[C]'' = Some 3" by (simp add: hash_search_def scenario_hashes)
  have c: "save_vocabulary ?V [''[C] [C]'']
       = ''1'' @ [NL] @ ''[C] [C]'' @ [NL] @ ''---VOCABULARY---'' @ [NL]
         @ ''[N]'' @ [TAB] @ ''1'' @ [NL] @ ''[C]'' @ [TAB] @ ''3'' @ [NL]"
    by (simp add: save_vocabulary_def e entry_line_def vocabulary_marker_def show_int_def
        show_nat.simps digit_char_def)
  from save_load_text_roundtrip [OF inv t m f] obtain v'
    where l: "load_vocabulary (Some (save_vocabulary ?V [''[C] [C]''])) = Some (v', [''[C] [C]''])"
      and "set (ht_entries v') = set (ht_entries ?V)"
      and "\<forall>k. hash_search v' k = hash_search ?V k"
    by blast
  then have "set (ht_entries v') = {(''[N]'', 1), (''[C]'', 3)}" and "hash_search v' ''[C]'' = Some 3"
    unfolding e using s by auto
  with l have "\<exists>v'. load_vocabulary (Some (save_vocabulary ?V [''[C] [C]''])) = Some (v', [''[C] [C]''])
          \<and> set (ht_entries v') = {(''[N]'', 1), (''[C]'', 3)}
          \<and> hash_search v' ''[C]'' = Some 3"
    by blast
  with inv c show ?thesis by blast
qed

text \<open>
  Without the restriction the round trip fails: the bracket group \<open>[C C]\<close> is a token of both
  segmenters, and its line \<open>[C C]\t1\<close> is read back as the word \<open>[C\<close> followed by something
  that is not a number, so the loaded vocabulary is empty.
\<close>

theorem save_load_text_counterexample:
  "ht_inv \<lparr>ht_items = [[], [], [(''[C C]'', 1)], []], ht_size = 4, ht_count = 1,
            load_threshold = HT_DEFAULT_LOAD_THRESHOLD\<rparr>
   \<and> ht_entries \<lparr>ht_items = [[], [], [(''[C C]'', 1)], []], ht_size = 4, ht_count = 1,
                   load_threshold = HT_DEFAULT_LOAD_THRESHOLD\<rparr> = [(''[C C]'', 1)]
   \<and> load_vocabulary (Some (save_vocabulary
         \<lparr>ht_items = [[], [], [(''[C C]'', 1)], []], ht_size = 4, ht_count = 1,
           load_threshold = HT_DEFAULT_LOAD_THRESHOLD\<rparr> [])) = Some (ht_create 100, [])
   \<and> ht_entries (ht_create 100) = []"
proof -
  let ?V = "\<lparr>ht_items = [[], [], [(''[C C]'', 1)], []], ht_size = 4, ht_count = 1,
              load_threshold = HT_DEFAULT_LOAD_THRESHOLD\<rparr>"
  have h: "hash ''[C C]'' 4 = 2" by (simp add: hash_def)
  have inv: "ht_inv ?V" by (simp add: ht_inv_def h)
  have e: "ht_entries ?V = [(''[C C]'', 1)]" by (simp add: ht_entries_def upt_rec)
  have c: "save_vocabulary ?V [] = ''0'' @ [NL] @ ''---VOCABULARY---'' @ [NL] @ ''[C C]'' @ [TAB] @ ''1'' @ [NL]"
    unfolding save_vocabulary_def e
    by (simp add: entry_line_def vocabulary_marker_def show_int_def show_nat.simps digit_char_def)
  have l: "load_vocabulary (Some (''0'' @ [NL] @ ''---VOCABULARY---'' @ [NL] @ ''[C C]'' @ [TAB] @ ''1'' @ [NL]))
             = Some (ht_create 100, [])"
    by (simp add: load_vocabulary_def scan_int_def skip_space_def isspace_def is_digit_def digits_value_def
      fgets_def find_marker.simps read_entries.simps scan_entry_def vocabulary_marker_def)
  from l have "load_vocabulary (Some (save_vocabulary ?V [])) = Some (ht_create 100, [])"
    unfolding c .
  with inv e show ?thesis using ht_create_entries [of 100] by blast
qed

subsection \<open>The JSON format\<close>

definition special_tokens :: "string list" where
  "special_tokens = [''<s>'', ''<pad>'', ''</s>'', ''<unk>'', ''<mask>'']"

text \<open>\<open>json_escape_string\<close>: \<open>"\<close>, \<open>\\<close>, \<open>/\<close>, backspace, form feed, newline, carriage return
  and tab become two characters each.\<close>

definition json_escape_char :: "char \<Rightarrow> string" where
  "json_escape_char c =
     (if c = DQ then [BSL, DQ]
      else if c = BSL then [BSL, BSL]
      else if c = CHR ''/'' then [BSL, CHR ''/'']
      else if c = CHR 0x08 then [BSL, CHR ''b'']
      else if c = CHR 0x0C then [BSL, CHR ''f'']
      else if c = NL then [BSL, CHR ''n'']
      else if c = CHR 0x0D then [BSL, CHR ''r'']
      else if c = TAB then [BSL, CHR ''t'']
      else [c])"

definition json_escape_string :: "string \<Rightarrow> string" where
  "json_escape_string input = concat (map json_escape_char input)"

text \<open>One \<open>fprintf(file, "  \"%s\": %d%s\n", key, value, comma)\<close>.\<close>

definition json_line :: "string \<Rightarrow> int \<Rightarrow> bool \<Rightarrow> string" where
  "json_line key v comma =
     ''  '' @ [DQ] @ key @ [DQ] @ '': '' @ show_int v @ (if comma then '','' else []) @ [NL]"

text \<open>The lines of the collected tokens: a comma after each but the last.\<close>

fun json_lines :: "(string \<times> int) list \<Rightarrow> string" where
  "json_lines [] = []"
| "json_lines [kv] = json_line (fst kv) (snd kv) False"
| "json_lines (kv # rest) = json_line (fst kv) (snd kv) True @ json_lines rest"

text \<open>
  \<open>save_vocabulary_json\<close>: the contents of \<open><base>.json\<close> and \<open><base>_freq.json\<close>. The
  special tokens are written first with the indices 0 to 4, then the tokens of the table that
  are not special, with the indices from 5 in the one file and their counts in the other.
  The merges are counted for the comma after the last special token and not written.
\<close>

definition save_vocabulary_json :: "HashTable \<Rightarrow> string list \<Rightarrow> string \<times> string" where
  "save_vocabulary_json v ms =
     (let token_list = filter (\<lambda>item. fst item \<notin> set special_tokens) (ht_entries v);
          keys = map (\<lambda>item. json_escape_string (fst item)) token_list
      in (''{'' @ [NL]
          @ concat (map (\<lambda>i. json_line (special_tokens ! i) (int i)
                                  (i < 4 \<or> 0 < ht_size v \<or> 0 < length ms)) [0..<5])
          @ json_lines (zip keys (map int [5..<5 + length keys]))
          @ ''}'' @ [NL],
          ''{'' @ [NL]
          @ json_lines (zip keys (map snd token_list))
          @ ''}'' @ [NL]))"

text \<open>Skip the opening brace.\<close>

definition open_brace :: "string \<Rightarrow> string" where
  "open_brace s = (let p = dropWhile (\<lambda>c. c \<noteq> CHR ''{'') s in if take 1 p = ''{'' then drop 1 p else p)"

text \<open>Skip to the next pair.\<close>

definition skip_to_next :: "string \<Rightarrow> string" where
  "skip_to_next s =
     (let p = dropWhile (\<lambda>c. c \<noteq> CHR '','' \<and> c \<noteq> CHR ''}'') s
      in if take 1 p = '','' then drop 1 p else p)"

text \<open>
  The head of one iteration, the same in both parsing loops: the loop ends (\<open>Stop\<close>), or a
  character that opens no key is passed over (\<open>Skip\<close>), or a key is read and the text is
  at the first character of its value (\<open>Pair\<close>).
\<close>

datatype json_head = Stop | Skip string | Pair string string

definition json_key :: "string \<Rightarrow> json_head" where
  "json_key s =
     (let p = skip_space s
      in if p = [] \<or> hd p = CHR ''}'' then Stop
         else if hd p = DQ
         then (let key = takeWhile (\<lambda>c. c \<noteq> DQ) (tl p);
                   p2 = dropWhile (\<lambda>c. c \<noteq> DQ) (tl p)
               in if p2 = [] then Stop
                  else (let p3 = dropWhile (\<lambda>c. c \<noteq> CHR '':'') (tl p2)
                        in if p3 = [] then Stop
                           else (let p4 = skip_space (tl p3)
                                 in if p4 = [] then Stop else Pair key p4)))
         else Skip (tl p))"

text \<open>The body of the loop over the vocabulary file: a string value with a space is a
  merge, any other string value a token with the placeholder count 1, a number a token with
  that number as its count.\<close>

definition json_vocab_step ::
  "HashTable \<times> string list \<Rightarrow> string \<Rightarrow> ((HashTable \<times> string list) \<times> string) option" where
  "json_vocab_step acc s =
     (case json_key s of
        Stop \<Rightarrow> None
      | Skip rest \<Rightarrow> Some (acc, rest)
      | Pair key p \<Rightarrow>
          if hd p = DQ
          then (let val = takeWhile (\<lambda>c. c \<noteq> DQ) (tl p);
                    p2 = dropWhile (\<lambda>c. c \<noteq> DQ) (tl p)
                in if p2 = [] then None
                   else Some (if CHR '' '' \<in> set val then (fst acc, snd acc @ [val])
                              else (ht_push (fst acc) key 1, snd acc),
                              skip_to_next (tl p2)))
          else if is_digit (hd p) \<or> hd p = CHR ''-''
          then Some ((ht_push (fst acc) key (atoi p), snd acc),
                     skip_to_next (dropWhile (\<lambda>c. is_digit c \<or> c = CHR ''-'' \<or> c = CHR ''.'') p))
          else Some (acc, skip_to_next p))"

text \<open>The body of the loop over the frequency file: a number is stored as the count of
  its key when the key is in the table.\<close>

definition json_freq_step :: "HashTable \<Rightarrow> string \<Rightarrow> (HashTable \<times> string) option" where
  "json_freq_step v s =
     (case json_key s of
        Stop \<Rightarrow> None
      | Skip rest \<Rightarrow> Some (v, rest)
      | Pair key p \<Rightarrow>
          Some (if is_digit (hd p) \<or> hd p = CHR ''-''
                then (case hash_search v key of
                        Some c \<Rightarrow> ht_set_count v key (atoi p)
                      | None \<Rightarrow> v)
                else v,
                skip_to_next p))"

lemma length_skip_to_next: "length (skip_to_next s) \<le> length s"
proof -
  have "length (dropWhile (\<lambda>c. c \<noteq> CHR '','' \<and> c \<noteq> CHR ''}'') s) \<le> length s"
    by (rule length_dropWhile_le)
  then show ?thesis by (auto simp: skip_to_next_def Let_def)
qed

lemma json_key_shorter:
  "json_key s = Skip rest \<Longrightarrow> length rest < length s"
  "json_key s = Pair key p \<Longrightarrow> length p < length s \<and> p \<noteq> []"
proof -
  define q where "q = skip_space s"
  define p2 where "p2 = dropWhile (\<lambda>c. c \<noteq> DQ) (tl q)"
  define p3 where "p3 = dropWhile (\<lambda>c. c \<noteq> CHR '':'') (tl p2)"
  have q: "length q \<le> length s" unfolding q_def by (rule length_skip_space)
  have p2: "length p2 \<le> length (tl q)" unfolding p2_def by (rule length_dropWhile_le)
  have p3: "length p3 \<le> length (tl p2)" unfolding p3_def by (rule length_dropWhile_le)
  have p4: "length (skip_space (tl p3)) \<le> length (tl p3)" by (rule length_skip_space)
  {
    assume "json_key s = Skip rest"
    then have "q \<noteq> []" and "rest = tl q"
      by (auto simp: json_key_def Let_def q_def split: if_splits)
    with q show "length rest < length s" by (cases q) auto
  }
  {
    assume "json_key s = Pair key p"
    then have "q \<noteq> []" and "p = skip_space (tl p3)" and "p \<noteq> []"
      by (auto simp: json_key_def Let_def q_def p2_def p3_def split: if_splits)
    with q p2 p3 p4 show "length p < length s \<and> p \<noteq> []" by (cases q) auto
  }
qed

lemma json_vocab_step_shorter:
  assumes "json_vocab_step acc s = Some (acc', rest)"
  shows "length rest < length s"
proof (cases "json_key s")
  case Stop
  with assms show ?thesis by (simp add: json_vocab_step_def)
next
  case (Skip r)
  with assms json_key_shorter(1) [OF Skip] show ?thesis by (simp add: json_vocab_step_def)
next
  case (Pair key p)
  from json_key_shorter(2) [OF Pair] have p: "length p < length s" "p \<noteq> []" by simp_all
  have a: "length (skip_to_next (tl (dropWhile (\<lambda>c. c \<noteq> DQ) (tl p)))) \<le> length p"
    using length_skip_to_next [of "tl (dropWhile (\<lambda>c. c \<noteq> DQ) (tl p))"]
      length_dropWhile_le [of "\<lambda>c. c \<noteq> DQ" "tl p"] by simp
  have b: "length (skip_to_next (dropWhile (\<lambda>c. is_digit c \<or> c = CHR ''-'' \<or> c = CHR ''.'') p)) \<le> length p"
    using length_skip_to_next [of "dropWhile (\<lambda>c. is_digit c \<or> c = CHR ''-'' \<or> c = CHR ''.'') p"]
      length_dropWhile_le [of "\<lambda>c. is_digit c \<or> c = CHR ''-'' \<or> c = CHR ''.''" p] by simp
  from assms Pair have "length rest \<le> length p"
    using a b length_skip_to_next [of p]
    by (auto simp: json_vocab_step_def Let_def split: if_splits)
  with p show ?thesis by simp
qed

lemma json_freq_step_shorter:
  assumes "json_freq_step v s = Some (v', rest)"
  shows "length rest < length s"
proof (cases "json_key s")
  case Stop
  with assms show ?thesis by (simp add: json_freq_step_def)
next
  case (Skip r)
  with assms json_key_shorter(1) [OF Skip] show ?thesis by (simp add: json_freq_step_def)
next
  case (Pair key p)
  from json_key_shorter(2) [OF Pair] have p: "length p < length s" by simp
  from assms Pair have "rest = skip_to_next p" by (auto simp: json_freq_step_def)
  with p length_skip_to_next [of p] show ?thesis by simp
qed

function json_vocab_loop :: "HashTable \<times> string list \<Rightarrow> string \<Rightarrow> HashTable \<times> string list" where
  "json_vocab_loop acc s =
     (case json_vocab_step acc s of
        None \<Rightarrow> acc
      | Some (acc', rest) \<Rightarrow> json_vocab_loop acc' rest)"
  by pat_completeness auto
termination
proof (relation "measure (\<lambda>(acc, s). length s)")
  show "wf (measure (\<lambda>(acc, s). length s))" by simp
next
  fix acc :: "HashTable \<times> string list" and s :: string and x2 acc' rest
  assume "json_vocab_step acc s = Some x2" and "(acc', rest) = x2"
  then have "json_vocab_step acc s = Some (acc', rest)" by simp
  from json_vocab_step_shorter [OF this]
  show "((acc', rest), (acc, s)) \<in> measure (\<lambda>(acc, s). length s)" by simp
qed

function json_freq_loop :: "HashTable \<Rightarrow> string \<Rightarrow> HashTable" where
  "json_freq_loop v s =
     (case json_freq_step v s of
        None \<Rightarrow> v
      | Some (v', rest) \<Rightarrow> json_freq_loop v' rest)"
  by pat_completeness auto
termination
proof (relation "measure (\<lambda>(v, s). length s)")
  show "wf (measure (\<lambda>(v, s). length s))" by simp
next
  fix v :: HashTable and s :: string and x2 v' rest
  assume "json_freq_step v s = Some x2" and "(v', rest) = x2"
  then have "json_freq_step v s = Some (v', rest)" by simp
  from json_freq_step_shorter [OF this]
  show "((v', rest), (v, s)) \<in> measure (\<lambda>(v, s). length s)" by simp
qed

declare json_vocab_loop.simps [simp del] json_freq_loop.simps [simp del]

text \<open>
  \<open>load_vocabulary_json\<close> on the content of the vocabulary file (\<open>None\<close>: it cannot be
  opened, the loader returns NULL) and of the frequency file beside it (\<open>None\<close>: it cannot
  be opened, the counts stay as read from the vocabulary file).
\<close>

definition load_vocabulary_json ::
  "string option \<Rightarrow> string option \<Rightarrow> (HashTable \<times> string list) option" where
  "load_vocabulary_json json_content freq_content =
     (case json_content of
        None \<Rightarrow> None
      | Some s \<Rightarrow>
          (case json_vocab_loop (ht_create 100, []) (open_brace s) of
             (v, ms) \<Rightarrow>
               Some (case freq_content of
                       None \<Rightarrow> v
                     | Some f \<Rightarrow> json_freq_loop v (open_brace f),
                     ms)))"

subsection \<open>Reading back one JSON line\<close>

lemma skip_space_NL: "skip_space (NL # s) = skip_space s"
  by (simp add: skip_space_def isspace_def)

lemma json_key_NL: "json_key (NL # s) = json_key s"
  by (simp add: json_key_def skip_space_NL)

lemma skip_space_show_int: "skip_space (show_int v @ rest) = show_int v @ rest"
  using skip_space_nonspace [of "show_int v @ rest"] show_int_nonempty [of v] hd_show_int_not_space [of v]
  by simp

lemma json_key_general:
  assumes "DQ \<notin> set key" and "tail \<noteq> []" and "\<not> isspace (hd tail)"
  shows "json_key (''  '' @ DQ # key @ DQ # '': '' @ tail) = Pair key tail"
proof -
  have 1: "skip_space (''  '' @ DQ # key @ DQ # '': '' @ tail) = DQ # key @ DQ # '': '' @ tail"
    by (simp add: skip_space_def isspace_def)
  have 2: "takeWhile (\<lambda>c. c \<noteq> DQ) (key @ DQ # '': '' @ tail) = key"
    using assms(1) by (induction key) auto
  have 3: "dropWhile (\<lambda>c. c \<noteq> DQ) (key @ DQ # '': '' @ tail) = DQ # '': '' @ tail"
    using assms(1) by (induction key) auto
  have 4: "skip_space (CHR '' '' # tail) = tail"
    using skip_space_nonspace [OF assms(2,3)] by (simp add: skip_space_def isspace_def)
  show ?thesis
    unfolding json_key_def 1 Let_def list.sel 2 3
    using assms(2) 4 by simp
qed

lemma json_key_line:
  assumes "DQ \<notin> set key"
  shows "json_key (json_line key v comma @ rest)
           = Pair key (show_int v @ (if comma then '','' else []) @ NL # rest)"
proof -
  let ?tail = "show_int v @ (if comma then '','' else []) @ NL # rest"
  have line: "json_line key v comma @ rest = ''  '' @ DQ # key @ DQ # '': '' @ ?tail"
    by (simp add: json_line_def)
  have "?tail \<noteq> []" using show_int_nonempty [of v] by simp
  moreover have "\<not> isspace (hd ?tail)"
    using hd_show_int_not_space [of v] show_int_nonempty [of v] by simp
  ultimately show ?thesis unfolding line using assms by (intro json_key_general)
qed

lemma show_int_chars: "c \<in> set (show_int v) \<Longrightarrow> is_digit c \<or> c = CHR ''-''"
  by (auto simp: show_int_def dest: show_nat_digits split: if_splits)

lemma hd_show_int: "is_digit (hd (show_int v @ rest)) \<or> hd (show_int v @ rest) = CHR ''-''"
  using show_int_nonempty [of v] show_int_chars [of "hd (show_int v)" v]
  by (cases "show_int v") auto

lemma atoi_show_int:
  "rest = [] \<or> \<not> is_digit (hd rest) \<Longrightarrow> atoi (show_int v @ rest) = v"
  by (simp add: atoi_def scan_int_show_int)

lemma drop_number:
  assumes "rest = [] \<or> \<not> (is_digit (hd rest) \<or> hd rest = CHR ''-'' \<or> hd rest = CHR ''.'')"
  shows "dropWhile (\<lambda>c. is_digit c \<or> c = CHR ''-'' \<or> c = CHR ''.'') (show_int v @ rest) = rest"
proof -
  have "\<forall>c \<in> set (show_int v). is_digit c \<or> c = CHR ''-'' \<or> c = CHR ''.''"
    using show_int_chars by blast
  then have "dropWhile (\<lambda>c. is_digit c \<or> c = CHR ''-'' \<or> c = CHR ''.'') (show_int v @ rest)
      = dropWhile (\<lambda>c. is_digit c \<or> c = CHR ''-'' \<or> c = CHR ''.'') rest"
    by (simp add: dropWhile_append2)
  also from assms have "\<dots> = rest" by (cases rest) auto
  finally show ?thesis .
qed

lemma skip_to_next_comma: "skip_to_next (CHR '','' # rest) = rest"
  by (simp add: skip_to_next_def)

lemma skip_to_next_close: "skip_to_next (NL # CHR ''}'' # rest) = CHR ''}'' # rest"
  by (simp add: skip_to_next_def)

definition push_entry :: "HashTable \<Rightarrow> string \<times> int \<Rightarrow> HashTable" where
  "push_entry v kv = ht_push v (fst kv) (snd kv)"

definition freq_entry :: "HashTable \<Rightarrow> string \<times> int \<Rightarrow> HashTable" where
  "freq_entry v kv =
     (case hash_search v (fst kv) of Some c \<Rightarrow> ht_set_count v (fst kv) (snd kv) | None \<Rightarrow> v)"

lemma json_vocab_step_line:
  assumes "DQ \<notin> set key"
  shows "json_vocab_step acc (json_line key v True @ rest)
           = Some ((push_entry (fst acc) (key, v), snd acc), NL # rest)"
    and "json_vocab_step acc (json_line key v False @ CHR ''}'' # rest)
           = Some ((push_entry (fst acc) (key, v), snd acc), CHR ''}'' # rest)"
proof -
  have nd: "\<not> is_digit (CHR '','')" "\<not> is_digit NL" "hd (show_int v @ r) \<noteq> DQ" for r
    using hd_show_int [of v r] by (auto simp: is_digit_def)
  show "json_vocab_step acc (json_line key v True @ rest)
           = Some ((push_entry (fst acc) (key, v), snd acc), NL # rest)"
    unfolding json_vocab_step_def json_key_line [OF assms]
    using hd_show_int [of v "'','' @ NL # rest"] nd(3) [of "'','' @ NL # rest"]
      atoi_show_int [of "'','' @ NL # rest" v] drop_number [of "'','' @ NL # rest" v]
    by (simp add: nd skip_to_next_comma push_entry_def)
  show "json_vocab_step acc (json_line key v False @ CHR ''}'' # rest)
           = Some ((push_entry (fst acc) (key, v), snd acc), CHR ''}'' # rest)"
    unfolding json_vocab_step_def json_key_line [OF assms]
    using hd_show_int [of v "NL # CHR ''}'' # rest"] nd(3) [of "NL # CHR ''}'' # rest"]
      atoi_show_int [of "NL # CHR ''}'' # rest" v] drop_number [of "NL # CHR ''}'' # rest" v]
    by (simp add: nd skip_to_next_close push_entry_def)
qed

lemma json_freq_step_line:
  assumes "DQ \<notin> set key"
  shows "json_freq_step t (json_line key v True @ rest) = Some (freq_entry t (key, v), NL # rest)"
    and "json_freq_step t (json_line key v False @ CHR ''}'' # rest)
           = Some (freq_entry t (key, v), CHR ''}'' # rest)"
proof -
  have sk1: "skip_to_next (show_int v @ CHR '','' # NL # rest) = NL # rest"
  proof -
    have "\<forall>c \<in> set (show_int v). c \<noteq> CHR '','' \<and> c \<noteq> CHR ''}''"
      using show_int_chars [of _ v] by (auto simp: is_digit_def)
    then have "dropWhile (\<lambda>c. c \<noteq> CHR '','' \<and> c \<noteq> CHR ''}'') (show_int v @ CHR '','' # NL # rest)
        = CHR '','' # NL # rest"
      by (simp add: dropWhile_append2)
    then show ?thesis by (simp add: skip_to_next_def)
  qed
  have sk2: "skip_to_next (show_int v @ NL # CHR ''}'' # rest) = CHR ''}'' # rest"
  proof -
    have "\<forall>c \<in> set (show_int v). c \<noteq> CHR '','' \<and> c \<noteq> CHR ''}''"
      using show_int_chars [of _ v] by (auto simp: is_digit_def)
    then have "dropWhile (\<lambda>c. c \<noteq> CHR '','' \<and> c \<noteq> CHR ''}'') (show_int v @ NL # CHR ''}'' # rest)
        = CHR ''}'' # rest"
      by (simp add: dropWhile_append2)
    then show ?thesis by (simp add: skip_to_next_def)
  qed
  have a1: "atoi (show_int v @ CHR '','' # NL # rest) = v"
    by (rule atoi_show_int) (simp add: is_digit_def)
  have a2: "atoi (show_int v @ NL # CHR ''}'' # rest) = v"
    by (rule atoi_show_int) (simp add: is_digit_def)
  show "json_freq_step t (json_line key v True @ rest) = Some (freq_entry t (key, v), NL # rest)"
    unfolding json_freq_step_def json_key_line [OF assms]
    using hd_show_int [of v "'','' @ NL # rest"]
    by (simp add: a1 sk1 freq_entry_def split: option.splits)
  show "json_freq_step t (json_line key v False @ CHR ''}'' # rest)
           = Some (freq_entry t (key, v), CHR ''}'' # rest)"
    unfolding json_freq_step_def json_key_line [OF assms]
    using hd_show_int [of v "NL # CHR ''}'' # rest"]
    by (simp add: a2 sk2 freq_entry_def split: option.splits)
qed


subsection \<open>Reading back the JSON files\<close>

lemma json_vocab_step_NL: "json_vocab_step acc (NL # s) = json_vocab_step acc s"
  by (simp add: json_vocab_step_def json_key_NL)

lemma json_freq_step_NL: "json_freq_step t (NL # s) = json_freq_step t s"
  by (simp add: json_freq_step_def json_key_NL)

lemma json_vocab_loop_close: "json_vocab_loop acc (CHR ''}'' # rest) = acc"
  by (subst json_vocab_loop.simps) (simp add: json_vocab_step_def json_key_def skip_space_def isspace_def)

lemma json_freq_loop_close: "json_freq_loop t (CHR ''}'' # rest) = t"
  by (subst json_freq_loop.simps) (simp add: json_freq_step_def json_key_def skip_space_def isspace_def)

lemma json_vocab_loop_comma_lines:
  assumes "\<forall>kv \<in> set kvs. DQ \<notin> set (fst kv)"
  shows "json_vocab_loop acc (NL # concat (map (\<lambda>kv. json_line (fst kv) (snd kv) True) kvs) @ rest)
           = json_vocab_loop (foldl push_entry (fst acc) kvs, snd acc) (NL # rest)"
  using assms
proof (induction kvs arbitrary: acc)
  case Nil
  then show ?case by simp
next
  case (Cons kv kvs)
  let ?more = "concat (map (\<lambda>kv. json_line (fst kv) (snd kv) True) kvs) @ rest"
  from Cons.prems have k: "DQ \<notin> set (fst kv)" by simp
  have "json_vocab_step acc (NL # json_line (fst kv) (snd kv) True @ ?more)
          = Some ((push_entry (fst acc) kv, snd acc), NL # ?more)"
    unfolding json_vocab_step_NL using json_vocab_step_line(1) [OF k, of acc "snd kv" ?more] by simp
  then have "json_vocab_loop acc (NL # json_line (fst kv) (snd kv) True @ ?more)
          = json_vocab_loop (push_entry (fst acc) kv, snd acc) (NL # ?more)"
    by (subst json_vocab_loop.simps) simp
  with Cons.IH [of "(push_entry (fst acc) kv, snd acc)"] Cons.prems show ?case by simp
qed

lemma json_vocab_loop_lines:
  assumes "\<forall>kv \<in> set kvs. DQ \<notin> set (fst kv)"
  shows "json_vocab_loop acc (NL # json_lines kvs @ CHR ''}'' # rest)
           = (foldl push_entry (fst acc) kvs, snd acc)"
  using assms
proof (induction kvs arbitrary: acc rule: json_lines.induct)
  case 1
  have "json_vocab_step acc (NL # CHR ''}'' # rest) = None"
    by (simp add: json_vocab_step_def json_key_def skip_space_def isspace_def)
  then show ?case by (subst json_vocab_loop.simps) simp
next
  case (2 kv)
  then have k: "DQ \<notin> set (fst kv)" by simp
  have "json_vocab_step acc (NL # json_line (fst kv) (snd kv) False @ CHR ''}'' # rest)
          = Some ((push_entry (fst acc) kv, snd acc), CHR ''}'' # rest)"
    unfolding json_vocab_step_NL using json_vocab_step_line(2) [OF k, of acc "snd kv" rest] by simp
  then show ?case
    by (subst json_vocab_loop.simps) (simp add: json_vocab_loop_close)
next
  case (3 kv kv' kvs)
  let ?more = "json_lines (kv' # kvs) @ CHR ''}'' # rest"
  from "3.prems" have k: "DQ \<notin> set (fst kv)" by simp
  have "json_vocab_step acc (NL # json_line (fst kv) (snd kv) True @ ?more)
          = Some ((push_entry (fst acc) kv, snd acc), NL # ?more)"
    unfolding json_vocab_step_NL using json_vocab_step_line(1) [OF k, of acc "snd kv" ?more] by simp
  then have "json_vocab_loop acc (NL # json_line (fst kv) (snd kv) True @ ?more)
          = json_vocab_loop (push_entry (fst acc) kv, snd acc) (NL # ?more)"
    by (subst json_vocab_loop.simps) simp
  with "3.IH" [of "(push_entry (fst acc) kv, snd acc)"] "3.prems" show ?case by simp
qed

lemma json_freq_loop_lines:
  assumes "\<forall>kv \<in> set kvs. DQ \<notin> set (fst kv)"
  shows "json_freq_loop t (NL # json_lines kvs @ CHR ''}'' # rest) = foldl freq_entry t kvs"
  using assms
proof (induction kvs arbitrary: t rule: json_lines.induct)
  case 1
  have "json_freq_step t (NL # CHR ''}'' # rest) = None"
    by (simp add: json_freq_step_def json_key_def skip_space_def isspace_def)
  then show ?case by (subst json_freq_loop.simps) simp
next
  case (2 kv)
  then have k: "DQ \<notin> set (fst kv)" by simp
  have "json_freq_step t (NL # json_line (fst kv) (snd kv) False @ CHR ''}'' # rest)
          = Some (freq_entry t kv, CHR ''}'' # rest)"
    unfolding json_freq_step_NL using json_freq_step_line(2) [OF k, of t "snd kv" rest] by simp
  then show ?case
    by (subst json_freq_loop.simps) (simp add: json_freq_loop_close)
next
  case (3 kv kv' kvs)
  let ?more = "json_lines (kv' # kvs) @ CHR ''}'' # rest"
  from "3.prems" have k: "DQ \<notin> set (fst kv)" by simp
  have "json_freq_step t (NL # json_line (fst kv) (snd kv) True @ ?more)
          = Some (freq_entry t kv, NL # ?more)"
    unfolding json_freq_step_NL using json_freq_step_line(1) [OF k, of t "snd kv" ?more] by simp
  then have "json_freq_loop t (NL # json_line (fst kv) (snd kv) True @ ?more)
          = json_freq_loop (freq_entry t kv) (NL # ?more)"
    by (subst json_freq_loop.simps) simp
  with "3.IH" [of "freq_entry t kv"] "3.prems" show ?case by simp
qed

lemma open_brace_here: "open_brace (CHR ''{'' # s) = s"
  by (simp add: open_brace_def)

subsection \<open>The table built from the JSON files\<close>

lemma push_entry_is_load_entry:
  "hash_search t (fst kv) = None \<Longrightarrow> push_entry t kv = load_entry t kv"
  by (simp add: push_entry_def load_entry_def)

lemma foldl_push_entry:
  "ht_inv t \<Longrightarrow> distinct (map fst kvs) \<Longrightarrow> \<forall>kv \<in> set kvs. hash_search t (fst kv) = None \<Longrightarrow>
   foldl push_entry t kvs = foldl load_entry t kvs"
proof (induction kvs arbitrary: t)
  case Nil
  then show ?case by simp
next
  case (Cons kv kvs)
  from Cons.prems have p: "push_entry t kv = load_entry t kv"
    by (simp add: push_entry_is_load_entry)
  have "\<forall>x \<in> set kvs. hash_search (load_entry t kv) (fst x) = None"
  proof
    fix x assume x: "x \<in> set kvs"
    with Cons.prems(2) have "fst x \<noteq> fst kv" by (metis distinct.simps(2) image_eqI list.simps(9) set_map)
    with x Cons.prems(3) show "hash_search (load_entry t kv) (fst x) = None"
      by (simp add: load_entry_search [OF Cons.prems(1)])
  qed
  with Cons.IH [of "load_entry t kv"] Cons.prems p show ?case
    by (simp add: load_entry_inv)
qed

lemma freq_entry_inv: "ht_inv t \<Longrightarrow> ht_inv (freq_entry t kv)"
  by (auto simp: freq_entry_def ht_set_count_inv split: option.splits)

lemma freq_entry_search:
  assumes "ht_inv t"
  shows "hash_search (freq_entry t kv) k =
           (if k = fst kv \<and> hash_search t k \<noteq> None then Some (snd kv) else hash_search t k)"
proof -
  from assms have pos: "0 < ht_size t" and len: "length (ht_items t) = ht_size t"
    by (auto simp: ht_inv_iff)
  show ?thesis
    by (cases "hash_search t (fst kv)") (auto simp: freq_entry_def hash_search_set_count [OF pos len])
qed

lemma foldl_freq_entry_inv: "ht_inv t \<Longrightarrow> ht_inv (foldl freq_entry t kvs)"
  by (induction kvs arbitrary: t) (simp_all add: freq_entry_inv)

lemma foldl_freq_entry_search:
  "ht_inv t \<Longrightarrow> distinct (map fst kvs) \<Longrightarrow>
   hash_search (foldl freq_entry t kvs) k =
     (case map_of kvs k of
        None \<Rightarrow> hash_search t k
      | Some c \<Rightarrow> if hash_search t k \<noteq> None then Some c else None)"
proof (induction kvs arbitrary: t)
  case Nil
  then show ?case by simp
next
  case (Cons kv kvs)
  from Cons.prems have d: "distinct (map fst kvs)" and n: "fst kv \<notin> fst ` set kvs" by auto
  from n have "map_of kvs (fst kv) = None" by (simp add: map_of_eq_None_iff)
  with Cons.IH [OF freq_entry_inv [OF Cons.prems(1)] d, of kv]
  show ?case
    by (cases kv) (auto simp: freq_entry_search [OF Cons.prems(1)] split: option.splits)
qed


text \<open>The special tokens with the indices the writer gives them.\<close>

definition special_index :: "(string \<times> int) list" where
  "special_index = [(''<s>'', 0), (''<pad>'', 1), (''</s>'', 2), (''<unk>'', 3), (''<mask>'', 4)]"

lemma json_escape_plain:
  "\<forall>c \<in> set k. json_escape_char c = [c] \<Longrightarrow> json_escape_string k = k \<and> DQ \<notin> set k"
proof (induction k)
  case Nil
  then show ?case by (simp add: json_escape_string_def)
next
  case (Cons c k)
  then have "json_escape_char c = [c]" and "json_escape_string k = k \<and> DQ \<notin> set k" by simp_all
  moreover from \<open>json_escape_char c = [c]\<close> have "c \<noteq> DQ"
    by (auto simp: json_escape_char_def split: if_splits)
  ultimately show ?case by (simp add: json_escape_string_def)
qed

lemma zip_fst_snd: "zip (map fst xs) (map snd xs) = xs"
  by (induction xs) auto

lemma json_roundtrip:
  assumes "ht_inv v"
    and "\<forall>item \<in> set (ht_entries v). \<forall>c \<in> set (fst item). json_escape_char c = [c]"
  shows "\<exists>v'. load_vocabulary_json (Some (fst (save_vocabulary_json v ms)))
                                     (Some (snd (save_vocabulary_json v ms))) = Some (v', [])
             \<and> (\<forall>k. hash_search v' k =
                      (case map_of special_index k of Some i \<Rightarrow> Some i | None \<Rightarrow> hash_search v k))"
proof -
  define token_list where "token_list = filter (\<lambda>item. fst item \<notin> set special_tokens) (ht_entries v)"
  define idx where "idx = map int [5..<5 + length token_list]"
  define kis where "kis = zip (map fst token_list) idx"
  define v1 where "v1 = foldl load_entry (ht_create 100) (special_index @ kis)"
  define v2 where "v2 = foldl freq_entry v1 token_list"
  from assms(1) have pos: "0 < ht_size v" and d: "distinct (map fst (ht_entries v))"
    by (auto simp: ht_inv_iff ht_entries_concat)
  have plain: "\<forall>item \<in> set token_list. json_escape_string (fst item) = fst item \<and> DQ \<notin> set (fst item)"
    using assms(2) json_escape_plain by (auto simp: token_list_def)
  then have keys: "map (\<lambda>item. json_escape_string (fst item)) token_list = map fst token_list"
    by simp
  have dq_kis: "\<forall>kv \<in> set kis. DQ \<notin> set (fst kv)"
    using plain by (auto simp: kis_def dest!: set_zip_leftD)
  have dq_tl: "\<forall>kv \<in> set token_list. DQ \<notin> set (fst kv)" using plain by simp
  have dq_sp: "\<forall>kv \<in> set special_index. DQ \<notin> set (fst kv)"
    by (simp add: special_index_def special_tokens_def upt_rec)
  have fst_kis: "map fst kis = map fst token_list" by (simp add: kis_def idx_def)
  have fst_sp: "map fst special_index = special_tokens"
    by (simp add: special_index_def special_tokens_def upt_rec)
  have d_tl: "distinct (map fst token_list)"
    unfolding token_list_def using d by (simp add: distinct_map_filter)
  have d_all: "distinct (map fst (special_index @ kis))"
    using d_tl by (auto simp: fst_kis fst_sp token_list_def) (simp add: special_tokens_def)
  have specials: "concat (map (\<lambda>i. json_line (special_tokens ! i) (int i)
                                  (i < 4 \<or> 0 < ht_size v \<or> 0 < length ms)) [0..<5])
                  = concat (map (\<lambda>kv. json_line (fst kv) (snd kv) True) special_index)"
    using pos by (simp add: special_index_def special_tokens_def upt_rec)
  have vfile: "fst (save_vocabulary_json v ms)
      = CHR ''{'' # NL # concat (map (\<lambda>kv. json_line (fst kv) (snd kv) True) special_index)
          @ json_lines kis @ CHR ''}'' # [NL]"
    unfolding save_vocabulary_json_def Let_def fst_conv specials token_list_def [symmetric] keys
    by (simp add: kis_def idx_def)
  have ffile: "snd (save_vocabulary_json v ms)
      = CHR ''{'' # NL # json_lines token_list @ CHR ''}'' # [NL]"
    unfolding save_vocabulary_json_def Let_def snd_conv token_list_def [symmetric] keys
    by (simp add: zip_fst_snd)
  have "json_vocab_loop (ht_create 100, []) (open_brace (fst (save_vocabulary_json v ms)))
          = (foldl push_entry (foldl push_entry (ht_create 100) special_index) kis, [])"
    unfolding vfile open_brace_here
    using json_vocab_loop_comma_lines [OF dq_sp, of "(ht_create 100, [])" "json_lines kis @ CHR ''}'' # [NL]"]
      json_vocab_loop_lines [OF dq_kis, of "(foldl push_entry (ht_create 100) special_index, [])" "[NL]"]
    by simp
  also have "foldl push_entry (foldl push_entry (ht_create 100) special_index) kis
          = foldl push_entry (ht_create 100) (special_index @ kis)" by simp
  also have "\<dots> = v1"
    unfolding v1_def by (rule foldl_push_entry [OF ht_create_inv d_all]) (simp add: hash_search_create)
  finally have vl: "json_vocab_loop (ht_create 100, []) (open_brace (fst (save_vocabulary_json v ms)))
          = (v1, [])" .
  have fl: "json_freq_loop v1 (open_brace (snd (save_vocabulary_json v ms))) = v2"
    unfolding ffile open_brace_here v2_def by (rule json_freq_loop_lines [OF dq_tl])
  have load: "load_vocabulary_json (Some (fst (save_vocabulary_json v ms)))
                (Some (snd (save_vocabulary_json v ms))) = Some (v2, [])"
    by (simp add: load_vocabulary_json_def vl fl)
  have inv1: "ht_inv v1" unfolding v1_def by (rule foldl_load_entry_inv [OF ht_create_inv])
  have s1: "hash_search v1 k = (case map_of special_index k of Some i \<Rightarrow> Some i | None \<Rightarrow> map_of kis k)" for k
    unfolding v1_def foldl_load_entry_search [OF ht_create_inv d_all]
    by (simp add: hash_search_create map_add_def split: option.splits)
  have s2: "hash_search v2 k =
     (case map_of token_list k of
        None \<Rightarrow> hash_search v1 k
      | Some c \<Rightarrow> if hash_search v1 k \<noteq> None then Some c else None)" for k
    unfolding v2_def by (rule foldl_freq_entry_search [OF inv1 d_tl])
  have "hash_search v2 k = (case map_of special_index k of Some i \<Rightarrow> Some i | None \<Rightarrow> hash_search v k)" for k
  proof (cases "k \<in> set special_tokens")
    case True
    then have "k \<notin> fst ` set token_list" by (auto simp: token_list_def)
    then have "map_of token_list k = None" by (simp add: map_of_eq_None_iff)
    moreover from True obtain i where "map_of special_index k = Some i"
      using fst_sp by (metis map_of_eq_None_iff not_None_eq set_map)
    ultimately show ?thesis by (simp add: s2 s1)
  next
    case False
    then have nsp: "map_of special_index k = None"
      using fst_sp by (metis map_of_eq_None_iff set_map)
    show ?thesis
    proof (cases "map_of token_list k")
      case None
      then have "k \<notin> fst ` set token_list" by (simp add: map_of_eq_None_iff)
      with False have "k \<notin> fst ` set (ht_entries v)" by (auto simp: token_list_def)
      then have "hash_search v k = None" by (simp add: hash_search_None_keys [OF assms(1)])
      moreover from \<open>k \<notin> fst ` set token_list\<close> have "map_of kis k = None"
        using fst_kis by (metis map_of_eq_None_iff set_map)
      ultimately show ?thesis using None nsp by (simp add: s2 s1)
    next
      case (Some c)
      then have m: "(k, c) \<in> set token_list" by (rule map_of_SomeD)
      then have "(k, c) \<in> set (ht_entries v)" by (simp add: token_list_def)
      then have "hash_search v k = Some c" by (simp add: ht_entries_search [OF assms(1)])
      moreover from m have "k \<in> fst ` set kis" using fst_kis by (metis image_eqI fst_conv set_map)
      then have "map_of kis k \<noteq> None" by (simp add: map_of_eq_None_iff)
      ultimately show ?thesis using Some nsp by (auto simp: s2 s1)
    qed
  qed
  with load show ?thesis by blast
qed


text \<open>
  C2, as the code has it. The JSON writer puts the five special tokens in front of the
  vocabulary and writes no merges, and the loader does not undo the escaping of the writer.
  For a table that satisfies the invariant and whose tokens contain none of the escaped
  characters, loading the saved pair of files gives every token that is not special the
  count it had, gives the special tokens their indices 0 to 4 as counts, and returns an empty
  merge list.
\<close>

theorem save_load_json_roundtrip:
  assumes "ht_inv v"
    and "\<forall>item \<in> set (ht_entries v). \<forall>c \<in> set (fst item).
           c \<notin> set [DQ, BSL, CHR ''/'', CHR 0x08, CHR 0x0C, NL, CHR 0x0D, TAB]"
  shows "\<exists>v'. load_vocabulary_json (Some (fst (save_vocabulary_json v ms)))
                                     (Some (snd (save_vocabulary_json v ms))) = Some (v', [])
             \<and> (\<forall>k. hash_search v' k =
                      (case map_of special_index k of Some i \<Rightarrow> Some i | None \<Rightarrow> hash_search v k))"
proof -
  from assms(2) have "\<forall>item \<in> set (ht_entries v). \<forall>c \<in> set (fst item). json_escape_char c = [c]"
    by (auto simp: json_escape_char_def)
  with assms(1) show ?thesis by (rule json_roundtrip)
qed

theorem save_load_json_roundtrip_witness:
  "ht_inv \<lparr>ht_items = [[], [], [(''[N]'', 1)], [(''[C]'', 3)]], ht_size = 4, ht_count = 2,
            load_threshold = HT_DEFAULT_LOAD_THRESHOLD\<rparr>
   \<and> (\<exists>v'. load_vocabulary_json
                (Some (fst (save_vocabulary_json
                   \<lparr>ht_items = [[], [], [(''[N]'', 1)], [(''[C]'', 3)]], ht_size = 4, ht_count = 2,
                     load_threshold = HT_DEFAULT_LOAD_THRESHOLD\<rparr> [''[C] [C]''])))
                (Some (snd (save_vocabulary_json
                   \<lparr>ht_items = [[], [], [(''[N]'', 1)], [(''[C]'', 3)]], ht_size = 4, ht_count = 2,
                     load_threshold = HT_DEFAULT_LOAD_THRESHOLD\<rparr> [''[C] [C]''])))
              = Some (v', [])
          \<and> hash_search v' ''[C]'' = Some 3 \<and> hash_search v' ''[N]'' = Some 1
          \<and> hash_search v' ''</s>'' = Some 2 \<and> hash_search v' ''[O]'' = None)"
proof -
  let ?V = "\<lparr>ht_items = [[], [], [(''[N]'', 1)], [(''[C]'', 3)]], ht_size = 4, ht_count = 2,
              load_threshold = HT_DEFAULT_LOAD_THRESHOLD\<rparr>"
  have inv: "ht_inv ?V" by (simp add: ht_inv_def scenario_hashes)
  have e: "ht_entries ?V = [(''[N]'', 1), (''[C]'', 3)]"
    by (simp add: ht_entries_def upt_rec)
  have t: "\<forall>item \<in> set (ht_entries ?V). \<forall>c \<in> set (fst item).
           c \<notin> set [DQ, BSL, CHR ''/'', CHR 0x08, CHR 0x0C, NL, CHR 0x0D, TAB]"
    unfolding e by simp
  have s: "hash_search ?V ''[C]'' = Some 3" "hash_search ?V ''[N]'' = Some 1"
    "hash_search ?V ''</s>'' = None" "hash_search ?V ''[O]'' = None"
    unfolding hash_search_map_of [OF inv] e by simp_all
  from save_load_json_roundtrip [OF inv t, of "[''[C] [C]'']"] obtain v'
    where l: "load_vocabulary_json (Some (fst (save_vocabulary_json ?V [''[C] [C]''])))
                (Some (snd (save_vocabulary_json ?V [''[C] [C]'']))) = Some (v', [])"
      and k: "\<And>k. hash_search v' k =
                (case map_of special_index k of Some i \<Rightarrow> Some i | None \<Rightarrow> hash_search ?V k)"
    by blast
  have "hash_search v' ''[C]'' = Some 3" "hash_search v' ''[N]'' = Some 1"
    "hash_search v' ''</s>'' = Some 2" "hash_search v' ''[O]'' = None"
    unfolding k by (simp_all add: special_index_def s)
  with l inv show ?thesis by blast
qed

text \<open>
  The round trip as claimed fails on any input: the merge list comes back empty and the
  loaded vocabulary has the special tokens, which the saved one did not have.
\<close>

theorem save_load_json_counterexample:
  "load_vocabulary_json
      (Some (fst (save_vocabulary_json
         \<lparr>ht_items = [[], [], [(''[N]'', 1)], [(''[C]'', 3)]], ht_size = 4, ht_count = 2,
           load_threshold = HT_DEFAULT_LOAD_THRESHOLD\<rparr> [''[C] [C]''])))
      (Some (snd (save_vocabulary_json
         \<lparr>ht_items = [[], [], [(''[N]'', 1)], [(''[C]'', 3)]], ht_size = 4, ht_count = 2,
           load_threshold = HT_DEFAULT_LOAD_THRESHOLD\<rparr> [''[C] [C]''])))
     \<noteq> None
   \<and> snd (the (load_vocabulary_json
      (Some (fst (save_vocabulary_json
         \<lparr>ht_items = [[], [], [(''[N]'', 1)], [(''[C]'', 3)]], ht_size = 4, ht_count = 2,
           load_threshold = HT_DEFAULT_LOAD_THRESHOLD\<rparr> [''[C] [C]''])))
      (Some (snd (save_vocabulary_json
         \<lparr>ht_items = [[], [], [(''[N]'', 1)], [(''[C]'', 3)]], ht_size = 4, ht_count = 2,
           load_threshold = HT_DEFAULT_LOAD_THRESHOLD\<rparr> [''[C] [C]''])))))
     = []
   \<and> hash_search (fst (the (load_vocabulary_json
      (Some (fst (save_vocabulary_json
         \<lparr>ht_items = [[], [], [(''[N]'', 1)], [(''[C]'', 3)]], ht_size = 4, ht_count = 2,
           load_threshold = HT_DEFAULT_LOAD_THRESHOLD\<rparr> [''[C] [C]''])))
      (Some (snd (save_vocabulary_json
         \<lparr>ht_items = [[], [], [(''[N]'', 1)], [(''[C]'', 3)]], ht_size = 4, ht_count = 2,
           load_threshold = HT_DEFAULT_LOAD_THRESHOLD\<rparr> [''[C] [C]'']))))))
       ''<s>'' = Some 0
   \<and> hash_search \<lparr>ht_items = [[], [], [(''[N]'', 1)], [(''[C]'', 3)]], ht_size = 4, ht_count = 2,
           load_threshold = HT_DEFAULT_LOAD_THRESHOLD\<rparr> ''<s>'' = None"
proof -
  let ?V = "\<lparr>ht_items = [[], [], [(''[N]'', 1)], [(''[C]'', 3)]], ht_size = 4, ht_count = 2,
              load_threshold = HT_DEFAULT_LOAD_THRESHOLD\<rparr>"
  have inv: "ht_inv ?V" by (simp add: ht_inv_def scenario_hashes)
  have e: "ht_entries ?V = [(''[N]'', 1), (''[C]'', 3)]"
    by (simp add: ht_entries_def upt_rec)
  have t: "\<forall>item \<in> set (ht_entries ?V). \<forall>c \<in> set (fst item). json_escape_char c = [c]"
    unfolding e by (simp add: json_escape_char_def)
  have s: "hash_search ?V ''<s>'' = None"
    unfolding hash_search_map_of [OF inv] e by simp
  from json_roundtrip [OF inv t, of "[''[C] [C]'']"] obtain v'
    where l: "load_vocabulary_json (Some (fst (save_vocabulary_json ?V [''[C] [C]''])))
                (Some (snd (save_vocabulary_json ?V [''[C] [C]'']))) = Some (v', [])"
      and k: "\<And>k. hash_search v' k =
                (case map_of special_index k of Some i \<Rightarrow> Some i | None \<Rightarrow> hash_search ?V k)"
    by blast
  have "hash_search v' ''<s>'' = Some 0" unfolding k by (simp add: special_index_def)
  with l s show ?thesis by simp
qed

end
